theory Spec2Isabelle
  imports Complex_Main "HOL-Library.AList" "HOL-Library.Product_Lexorder"
begin

section \<open>Strings, errors and time parsing (core/course\_utils.py)\<close>

text \<open>
  Python strings are modelled as \<^typ>\<open>string\<close> holding the UTF-8 bytes of the text.
  Equality, splitting at an ASCII separator and substring search give the same answers on
  UTF-8 bytes as on code points. The two parity markers of the source are the Persian
  letters ZAIN (U+0632, "even") and FEH (U+0641, "odd").
\<close>

datatype error = ValueError | KeyError

definition parity_even :: string where
  "parity_even = [CHR 0xD8, CHR 0xB2]"

definition parity_odd :: string where
  "parity_odd = [CHR 0xD9, CHR 0x81]"

text \<open>\<^verbatim>\<open>str.split(sep)\<close> for a one-character separator: never returns an empty list.\<close>

fun split_on :: "char \<Rightarrow> string \<Rightarrow> string list" where
  "split_on sep [] = [[]]"
| "split_on sep (c # cs) =
     (if c = sep then [] # split_on sep cs
      else (case split_on sep cs of
              [] \<Rightarrow> [[c]]
            | p # ps \<Rightarrow> (c # p) # ps))"

definition is_space :: "char \<Rightarrow> bool" where
  "is_space c = (c \<in> set [CHR 0x20, CHR 0x09, CHR 0x0A, CHR 0x0B, CHR 0x0C, CHR 0x0D])"

definition is_digit :: "char \<Rightarrow> bool" where
  "is_digit c = (48 \<le> (of_char c :: nat) \<and> (of_char c :: nat) \<le> 57)"

definition digit_val :: "char \<Rightarrow> int" where
  "digit_val c = int (of_char c) - 48"

text \<open>\<^verbatim>\<open>str.strip()\<close>, for the ASCII whitespace characters.\<close>

definition strip :: "string \<Rightarrow> string" where
  "strip s = rev (dropWhile is_space (rev (dropWhile is_space s)))"

text \<open>
  The digits of a decimal literal as \<^verbatim>\<open>int()\<close> reads them: a single underscore is allowed
  between two digits.
\<close>

fun py_digits :: "int \<Rightarrow> string \<Rightarrow> int option" where
  "py_digits acc [] = Some acc"
| "py_digits acc [c] = (if is_digit c then Some (acc * 10 + digit_val c) else None)"
| "py_digits acc (c # d # cs) =
     (if is_digit c then py_digits (acc * 10 + digit_val c) (d # cs)
      else if c = CHR ''_'' \<and> is_digit d then py_digits acc (d # cs)
      else None)"

text \<open>
  The builtin \<^verbatim>\<open>int(str)\<close> on ASCII input: surrounding whitespace is dropped, one sign is
  allowed, and at least one digit must follow. \<open>None\<close> stands for the ValueError of the
  builtin. Digits and whitespace outside ASCII are rejected here.
\<close>

definition py_unsigned :: "string \<Rightarrow> int option" where
  "py_unsigned s = (case s of [] \<Rightarrow> None | c # cs \<Rightarrow> if is_digit c then py_digits 0 s else None)"

definition py_int :: "string \<Rightarrow> int option" where
  "py_int s =
     (case strip s of
        [] \<Rightarrow> None
      | c # cs \<Rightarrow>
          if c = CHR ''-'' then map_option uminus (py_unsigned cs)
          else if c = CHR ''+'' then py_unsigned cs
          else py_unsigned (c # cs))"

text \<open>
  \<^verbatim>\<open>h, mm = map(int, tstr.split(':'))\<close>: fewer or more than two parts, or a part that
  \<^verbatim>\<open>int\<close> rejects, raise ValueError.
\<close>

definition to_minutes :: "string \<Rightarrow> error + int" where
  "to_minutes tstr =
     (case split_on CHR '':'' tstr of
        [p, q] \<Rightarrow>
          (case py_int p of
             None \<Rightarrow> Inl ValueError
           | Some h \<Rightarrow>
               (case py_int q of
                  None \<Rightarrow> Inl ValueError
                | Some mm \<Rightarrow> Inr (h * 60 + mm)))
      | _ \<Rightarrow> Inl ValueError)"

definition overlap :: "int \<Rightarrow> int \<Rightarrow> int \<Rightarrow> int \<Rightarrow> bool" where
  "overlap s1 e1 s2 e2 = (\<not> (e1 \<le> s2 \<or> e2 \<le> s1))"

section \<open>Sessions and the conflict check\<close>

text \<open>
  A session dictionary of the catalog. The keys \<^verbatim>\<open>day\<close>, \<^verbatim>\<open>start\<close> and \<^verbatim>\<open>end\<close>
  are always present; \<^verbatim>\<open>parity\<close> is read with \<^verbatim>\<open>.get('parity', '')\<close> and may be absent.
\<close>

record session =
  sess_day :: string
  sess_start :: string
  sess_end :: string
  sess_parity :: "string option"

definition get_parity :: "session \<Rightarrow> string" where
  "get_parity s = (case sess_parity s of None \<Rightarrow> [] | Some p \<Rightarrow> p)"

definition is_compatible :: "string \<Rightarrow> string \<Rightarrow> bool" where
  "is_compatible a_parity b_parity =
     ((a_parity = parity_even \<and> b_parity = parity_odd) \<or>
      (a_parity = parity_odd \<and> b_parity = parity_even))"

text \<open>
  The body of the inner loop of \<^verbatim>\<open>schedules_conflict\<close> for one pair: \<open>Inr True\<close> is
  \<^verbatim>\<open>return True\<close>, \<open>Inr False\<close> is going on with the next pair, \<open>Inl\<close> is the exception
  of \<^verbatim>\<open>to_minutes\<close>. The four times are converted in the order of the call.
\<close>

definition session_pair_conflict :: "session \<Rightarrow> session \<Rightarrow> error + bool" where
  "session_pair_conflict a b =
     (if sess_day a \<noteq> sess_day b then Inr False
      else if is_compatible (get_parity a) (get_parity b) then Inr False
      else (case to_minutes (sess_start a) of Inl e \<Rightarrow> Inl e | Inr s1 \<Rightarrow>
           (case to_minutes (sess_end a) of Inl e \<Rightarrow> Inl e | Inr e1 \<Rightarrow>
           (case to_minutes (sess_start b) of Inl e \<Rightarrow> Inl e | Inr s2 \<Rightarrow>
           (case to_minutes (sess_end b) of Inl e \<Rightarrow> Inl e | Inr e2 \<Rightarrow>
              Inr (overlap s1 e1 s2 e2))))))"

fun conflict_inner :: "session \<Rightarrow> session list \<Rightarrow> error + bool" where
  "conflict_inner a [] = Inr False"
| "conflict_inner a (b # bs) =
     (case session_pair_conflict a b of
        Inl e \<Rightarrow> Inl e
      | Inr True \<Rightarrow> Inr True
      | Inr False \<Rightarrow> conflict_inner a bs)"

fun schedules_conflict :: "session list \<Rightarrow> session list \<Rightarrow> error + bool" where
  "schedules_conflict [] sch2 = Inr False"
| "schedules_conflict (a # sch1) sch2 =
     (case conflict_inner a sch2 of
        Inl e \<Rightarrow> Inl e
      | Inr True \<Rightarrow> Inr True
      | Inr False \<Rightarrow> schedules_conflict sch1 sch2)"

text \<open>A session whose two time strings both convert.\<close>

definition parses :: "string \<Rightarrow> bool" where
  "parses t = (case to_minutes t of Inl e \<Rightarrow> False | Inr v \<Rightarrow> True)"

definition times_ok :: "session \<Rightarrow> bool" where
  "times_ok s = (parses (sess_start s) \<and> parses (sess_end s))"

section \<open>The catalog\<close>

text \<open>
  \<^verbatim>\<open>COURSES\<close> is a module-level dictionary from course key to course dictionary. It is
  passed explicitly, as the list of its items in insertion order. Of a course dictionary the
  engine reads \<^verbatim>\<open>code\<close> and \<^verbatim>\<open>name\<close> (with \<^verbatim>\<open>.get(..., '')\<close>) and
  \<^verbatim>\<open>schedule\<close> (indexed in the combination generator, \<^verbatim>\<open>.get('schedule', [])\<close> in
  the priority scheduler); \<open>None\<close> is an absent key.
\<close>

record course =
  course_code :: "string option"
  course_name :: "string option"
  course_schedule :: "session list option"

type_synonym catalog = "(string \<times> course) list"

definition get_code :: "course \<Rightarrow> string" where
  "get_code v = (case course_code v of None \<Rightarrow> [] | Some c \<Rightarrow> c)"

definition get_name :: "course \<Rightarrow> string" where
  "get_name v = (case course_name v of None \<Rightarrow> [] | Some n \<Rightarrow> n)"

text \<open>\<^verbatim>\<open>COURSES[key]['schedule']\<close>\<close>

definition index_schedule :: "catalog \<Rightarrow> string \<Rightarrow> error + session list" where
  "index_schedule C key =
     (case map_of C key of
        None \<Rightarrow> Inl KeyError
      | Some v \<Rightarrow> (case course_schedule v of None \<Rightarrow> Inl KeyError | Some sch \<Rightarrow> Inr sch))"

text \<open>\<^verbatim>\<open>v.get('schedule', [])\<close> and \<^verbatim>\<open>COURSES[key].get('schedule', [])\<close>\<close>

definition course_sessions :: "course \<Rightarrow> session list" where
  "course_sessions v = (case course_schedule v of None \<Rightarrow> [] | Some sch \<Rightarrow> sch)"

definition get_schedule :: "catalog \<Rightarrow> string \<Rightarrow> error + session list" where
  "get_schedule C key =
     (case map_of C key of
        None \<Rightarrow> Inl KeyError
      | Some v \<Rightarrow> Inr (course_sessions v))"

section \<open>Days and idle time of a combination\<close>

text \<open>
  \<^verbatim>\<open>calculate_days_needed_for_combo\<close>: the sessions are read course by course; the result
  is the size of the set of their days.
\<close>

fun combo_sessions :: "catalog \<Rightarrow> string list \<Rightarrow> error + session list" where
  "combo_sessions C [] = Inr []"
| "combo_sessions C (key # keys) =
     (case index_schedule C key of
        Inl e \<Rightarrow> Inl e
      | Inr sch \<Rightarrow>
          (case combo_sessions C keys of
             Inl e \<Rightarrow> Inl e
           | Inr rest \<Rightarrow> Inr (sch @ rest)))"

definition calculate_days_needed_for_combo :: "catalog \<Rightarrow> string list \<Rightarrow> error + nat" where
  "calculate_days_needed_for_combo C combo_keys =
     (case combo_sessions C combo_keys of
        Inl e \<Rightarrow> Inl e
      | Inr items \<Rightarrow> Inr (length (remdups (map sess_day items))))"

text \<open>
  The dictionary \<^verbatim>\<open>daily\<close> of \<^verbatim>\<open>calculate_empty_time_for_combo\<close>, in insertion order:
  a day absent from it is added at the end, a day present gets the interval appended.
\<close>

type_synonym daily = "(string \<times> (int \<times> int) list) list"

definition daily_append :: "daily \<Rightarrow> string \<Rightarrow> int \<times> int \<Rightarrow> daily" where
  "daily_append daily d iv =
     (case map_of daily d of
        None \<Rightarrow> daily @ [(d, [iv])]
      | Some ivs \<Rightarrow> AList.update d (ivs @ [iv]) daily)"

fun daily_add_items :: "daily \<Rightarrow> session list \<Rightarrow> error + daily" where
  "daily_add_items daily [] = Inr daily"
| "daily_add_items daily (item # items) =
     (case to_minutes (sess_start item) of Inl e \<Rightarrow> Inl e | Inr s \<Rightarrow>
     (case to_minutes (sess_end item) of Inl e \<Rightarrow> Inl e | Inr e \<Rightarrow>
        daily_add_items (daily_append daily (sess_day item) (s, e)) items))"

fun daily_collect :: "catalog \<Rightarrow> daily \<Rightarrow> string list \<Rightarrow> error + daily" where
  "daily_collect C daily [] = Inr daily"
| "daily_collect C daily (key # keys) =
     (case index_schedule C key of
        Inl e \<Rightarrow> Inl e
      | Inr sch \<Rightarrow>
          (case daily_add_items daily sch of
             Inl e \<Rightarrow> Inl e
           | Inr daily' \<Rightarrow> daily_collect C daily' keys))"

text \<open>
  The loop over \<^verbatim>\<open>range(len(intervals) - 1)\<close> on the sorted intervals of one day, adding
  \<^verbatim>\<open>gap / 60.0\<close> to the running penalty for every gap above 15. The float of the source
  is a rational here: rounding is not modelled.
\<close>

fun gaps_penalty :: "rat \<Rightarrow> (int \<times> int) list \<Rightarrow> rat" where
  "gaps_penalty penalty (iv # nxt # rest) =
     (let gap = fst nxt - snd iv
      in gaps_penalty (if gap > 15 then penalty + of_int gap / 60 else penalty) (nxt # rest))"
| "gaps_penalty penalty ivs = penalty"

fun days_penalty :: "rat \<Rightarrow> (int \<times> int) list list \<Rightarrow> rat" where
  "days_penalty penalty [] = penalty"
| "days_penalty penalty (intervals # others) =
     days_penalty (gaps_penalty penalty (sort intervals)) others"

definition calculate_empty_time_for_combo :: "catalog \<Rightarrow> string list \<Rightarrow> error + rat" where
  "calculate_empty_time_for_combo C combo_keys =
     (case daily_collect C [] combo_keys of
        Inl e \<Rightarrow> Inl e
      | Inr daily \<Rightarrow> Inr (days_penalty 0 (map snd daily)))"

section \<open>The combination generator\<close>

record combination =
  combo_courses :: "string list"
  combo_days :: nat
  combo_empty :: rat
  combo_score :: rat

text \<open>\<^verbatim>\<open>g in name\<close> on strings: \<open>g\<close> occurs in \<open>name\<close> as a contiguous run.\<close>

fun contains :: "string \<Rightarrow> string \<Rightarrow> bool" where
  "contains [] g = (g = [])"
| "contains (c # cs) g = (take (length g) (c # cs) = g \<or> contains cs g)"

definition code_prefix :: "string \<Rightarrow> string" where
  "code_prefix code = (case split_on CHR ''_'' code of [] \<Rightarrow> [] | p # ps \<Rightarrow> p)"

definition group_candidates :: "catalog \<Rightarrow> string \<Rightarrow> string list" where
  "group_candidates C g =
     (let candidates = map fst (filter (\<lambda>(k, v). code_prefix (get_code v) = g) C)
      in if candidates = []
         then map fst (filter (\<lambda>(k, v). get_code v = g \<or> contains (get_name v) g) C)
         else candidates)"

text \<open>The first loop: \<open>None\<close> is the early \<^verbatim>\<open>return []\<close> at a group without candidates.\<close>

fun build_groups :: "catalog \<Rightarrow> string list \<Rightarrow> string list list option" where
  "build_groups C [] = Some []"
| "build_groups C (g # gs) =
     (let candidates = group_candidates C g
      in if candidates = [] then None
         else (case build_groups C gs of
                 None \<Rightarrow> None
               | Some groups \<Rightarrow> Some (candidates # groups)))"

text \<open>
  The loops over \<open>i\<close> and \<open>j > i\<close>: \<open>Inr True\<close> when some pair conflicts (\<^verbatim>\<open>ok = False\<close>).
\<close>

fun conflicts_with_later :: "catalog \<Rightarrow> string \<Rightarrow> string list \<Rightarrow> error + bool" where
  "conflicts_with_later C ki [] = Inr False"
| "conflicts_with_later C ki (kj # later) =
     (case index_schedule C ki of Inl e \<Rightarrow> Inl e | Inr si \<Rightarrow>
     (case index_schedule C kj of Inl e \<Rightarrow> Inl e | Inr sj \<Rightarrow>
     (case schedules_conflict si sj of
        Inl e \<Rightarrow> Inl e
      | Inr True \<Rightarrow> Inr True
      | Inr False \<Rightarrow> conflicts_with_later C ki later)))"

fun pick_conflicts :: "catalog \<Rightarrow> string list \<Rightarrow> error + bool" where
  "pick_conflicts C [] = Inr False"
| "pick_conflicts C (k # ks) =
     (case conflicts_with_later C k ks of
        Inl e \<Rightarrow> Inl e
      | Inr True \<Rightarrow> Inr True
      | Inr False \<Rightarrow> pick_conflicts C ks)"

text \<open>The body of the loop over \<^verbatim>\<open>product(*groups)\<close> for one pick.\<close>

definition score_pick :: "catalog \<Rightarrow> string list \<Rightarrow> error + combination option" where
  "score_pick C keys =
     (case pick_conflicts C keys of
        Inl e \<Rightarrow> Inl e
      | Inr True \<Rightarrow> Inr None
      | Inr False \<Rightarrow>
          (case calculate_days_needed_for_combo C keys of Inl e \<Rightarrow> Inl e | Inr days \<Rightarrow>
          (case calculate_empty_time_for_combo C keys of Inl e \<Rightarrow> Inl e | Inr idle \<Rightarrow>
             Inr (Some \<lparr>combo_courses = keys, combo_days = days, combo_empty = idle,
                        combo_score = of_nat days + (1 / 2) * idle\<rparr>))))"

fun collect_combos :: "catalog \<Rightarrow> combination list \<Rightarrow> string list list \<Rightarrow> error + combination list" where
  "collect_combos C combos [] = Inr combos"
| "collect_combos C combos (pick # picks) =
     (case score_pick C pick of
        Inl e \<Rightarrow> Inl e
      | Inr None \<Rightarrow> collect_combos C combos picks
      | Inr (Some c) \<Rightarrow> collect_combos C (combos @ [c]) picks)"

definition combo_sort_key :: "combination \<Rightarrow> nat \<times> rat \<times> rat" where
  "combo_sort_key x = (combo_days x, combo_empty x, combo_score x)"

definition generate_best_combinations_for_groups ::
  "catalog \<Rightarrow> string list \<Rightarrow> error + combination list" where
  "generate_best_combinations_for_groups C group_keys =
     (case build_groups C group_keys of
        None \<Rightarrow> Inr []
      | Some groups \<Rightarrow>
          (case collect_combos C [] (product_lists groups) of
             Inl e \<Rightarrow> Inl e
           | Inr combos \<Rightarrow> Inr (sort_key combo_sort_key combos)))"

section \<open>The priority scheduler\<close>

text \<open>
  The test of a course against the courses selected so far, in the order of the list and
  stopping at the first conflict: the loop with \<^verbatim>\<open>break\<close> of
  \<^verbatim>\<open>create_greedy_schedule\<close> and the \<^verbatim>\<open>any(...)\<close> of
  \<^verbatim>\<open>create_alternative_schedule\<close>.
\<close>

fun conflicts_with_selected :: "catalog \<Rightarrow> session list \<Rightarrow> string list \<Rightarrow> error + bool" where
  "conflicts_with_selected C current_schedule [] = Inr False"
| "conflicts_with_selected C current_schedule (sel # others) =
     (case get_schedule C sel of Inl e \<Rightarrow> Inl e | Inr selected_schedule \<Rightarrow>
     (case schedules_conflict current_schedule selected_schedule of
        Inl e \<Rightarrow> Inl e
      | Inr True \<Rightarrow> Inr True
      | Inr False \<Rightarrow> conflicts_with_selected C current_schedule others))"

fun greedy_loop :: "catalog \<Rightarrow> string list \<Rightarrow> string list \<Rightarrow> error + string list" where
  "greedy_loop C selected_courses [] = Inr selected_courses"
| "greedy_loop C selected_courses (course_key # rest) =
     (if map_of C course_key = None then greedy_loop C selected_courses rest
      else (case get_schedule C course_key of Inl e \<Rightarrow> Inl e | Inr current_schedule \<Rightarrow>
           (case conflicts_with_selected C current_schedule selected_courses of
              Inl e \<Rightarrow> Inl e
            | Inr True \<Rightarrow> greedy_loop C selected_courses rest
            | Inr False \<Rightarrow> greedy_loop C (selected_courses @ [course_key]) rest)))"

definition create_greedy_schedule :: "catalog \<Rightarrow> string list \<Rightarrow> error + string list" where
  "create_greedy_schedule C ordered_course_keys = greedy_loop C [] ordered_course_keys"

text \<open>
  The first loop of \<^verbatim>\<open>create_alternative_schedule\<close>, which stops once \<open>skip_count\<close>
  courses have been skipped, and the second loop over the courses neither selected nor
  skipped. Neither tests whether the key is in the catalog.
\<close>

fun skip_loop ::
  "catalog \<Rightarrow> int \<Rightarrow> string list \<Rightarrow> string list \<Rightarrow> string list \<Rightarrow>
   error + (string list \<times> string list)" where
  "skip_loop C skip_count selected_courses skipped_courses [] =
     Inr (selected_courses, skipped_courses)"
| "skip_loop C skip_count selected_courses skipped_courses (course_key # rest) =
     (if int (length skipped_courses) \<ge> skip_count then Inr (selected_courses, skipped_courses)
      else (case get_schedule C course_key of Inl e \<Rightarrow> Inl e | Inr current_schedule \<Rightarrow>
           (case conflicts_with_selected C current_schedule selected_courses of
              Inl e \<Rightarrow> Inl e
            | Inr True \<Rightarrow>
                skip_loop C skip_count selected_courses (skipped_courses @ [course_key]) rest
            | Inr False \<Rightarrow>
                skip_loop C skip_count (selected_courses @ [course_key]) skipped_courses rest)))"

fun readd_loop ::
  "catalog \<Rightarrow> string list \<Rightarrow> string list \<Rightarrow> string list \<Rightarrow> error + string list" where
  "readd_loop C selected_courses skipped_courses [] = Inr selected_courses"
| "readd_loop C selected_courses skipped_courses (course_key # rest) =
     (if course_key \<notin> set selected_courses \<and> course_key \<notin> set skipped_courses
      then (case get_schedule C course_key of Inl e \<Rightarrow> Inl e | Inr current_schedule \<Rightarrow>
           (case conflicts_with_selected C current_schedule selected_courses of
              Inl e \<Rightarrow> Inl e
            | Inr True \<Rightarrow> readd_loop C selected_courses skipped_courses rest
            | Inr False \<Rightarrow>
                readd_loop C (selected_courses @ [course_key]) skipped_courses rest))
      else readd_loop C selected_courses skipped_courses rest)"

definition create_alternative_schedule ::
  "catalog \<Rightarrow> string list \<Rightarrow> int \<Rightarrow> error + string list" where
  "create_alternative_schedule C ordered_course_keys skip_count =
     (case skip_loop C skip_count [] [] ordered_course_keys of
        Inl e \<Rightarrow> Inl e
      | Inr (selected_courses, skipped_courses) \<Rightarrow>
          readd_loop C selected_courses skipped_courses ordered_course_keys)"

section \<open>The time grid (core/config.py)\<close>

text \<open>The seven day names of \<^verbatim>\<open>_BASE_DAYS\<close>, Saturday first, in UTF-8.\<close>

definition saturday :: string where
  "saturday = [CHR 0xD8, CHR 0xB4, CHR 0xD9, CHR 0x86, CHR 0xD8, CHR 0xA8, CHR 0xD9, CHR 0x87]"

definition sunday :: string where
  "sunday = [CHR 0xDB, CHR 0x8C, CHR 0xDA, CHR 0xA9, CHR 0xD8, CHR 0xB4, CHR 0xD9, CHR 0x86,
             CHR 0xD8, CHR 0xA8, CHR 0xD9, CHR 0x87]"

definition monday :: string where
  "monday = [CHR 0xD8, CHR 0xAF, CHR 0xD9, CHR 0x88, CHR 0xD8, CHR 0xB4, CHR 0xD9, CHR 0x86,
             CHR 0xD8, CHR 0xA8, CHR 0xD9, CHR 0x87]"

definition tuesday :: string where
  "tuesday = [CHR 0xD8, CHR 0xB3, CHR 0xD9, CHR 0x87, CHR 0xE2, CHR 0x80, CHR 0x8C, CHR 0xD8,
              CHR 0xB4, CHR 0xD9, CHR 0x86, CHR 0xD8, CHR 0xA8, CHR 0xD9, CHR 0x87]"

definition wednesday :: string where
  "wednesday = [CHR 0xDA, CHR 0x86, CHR 0xD9, CHR 0x87, CHR 0xD8, CHR 0xA7, CHR 0xD8, CHR 0xB1,
                CHR 0xD8, CHR 0xB4, CHR 0xD9, CHR 0x86, CHR 0xD8, CHR 0xA8, CHR 0xD9, CHR 0x87]"

definition thursday :: string where
  "thursday = [CHR 0xD9, CHR 0xBE, CHR 0xD9, CHR 0x86, CHR 0xD8, CHR 0xAC, CHR 0xE2, CHR 0x80,
               CHR 0x8C, CHR 0xD8, CHR 0xB4, CHR 0xD9, CHR 0x86, CHR 0xD8, CHR 0xA8, CHR 0xD9,
               CHR 0x87]"

definition friday :: string where
  "friday = [CHR 0xD8, CHR 0xAC, CHR 0xD9, CHR 0x85, CHR 0xD8, CHR 0xB9, CHR 0xD9, CHR 0x87]"

definition DAYS :: "string list" where
  "DAYS = [saturday, sunday, monday, tuesday, wednesday, thursday, friday]"

text \<open>\<^verbatim>\<open>f"{hh:02d}:{mm:02d}"\<close> for a number of minutes below 100 hours.\<close>

definition two_digits :: "nat \<Rightarrow> string" where
  "two_digits n = [char_of (48 + n div 10), char_of (48 + n mod 10)]"

definition format_slot :: "nat \<Rightarrow> string" where
  "format_slot m = two_digits (m div 60) @ '':'' @ two_digits (m mod 60)"

text \<open>The loop of \<^verbatim>\<open>generate_extended_time_slots\<close>: from 7:00 to 19:00 in steps of 30.\<close>

function slots_from :: "nat \<Rightarrow> nat \<Rightarrow> string list" where
  "slots_from m end_minutes =
     (if m \<le> end_minutes then format_slot m # slots_from (m + 30) end_minutes else [])"
  by pat_completeness auto
termination
  by (relation "measure (\<lambda>(m, end_minutes). Suc end_minutes - m)") auto

definition EXTENDED_TIME_SLOTS :: "string list" where
  "EXTENDED_TIME_SLOTS = slots_from (7 * 60) (19 * 60)"

text \<open>\<^verbatim>\<open>list.index\<close>: \<open>None\<close> is its ValueError.\<close>

fun index_of :: "'a list \<Rightarrow> 'a \<Rightarrow> nat option" where
  "index_of [] x = None"
| "index_of (y # ys) x = (if y = x then Some 0 else map_option Suc (index_of ys x))"

section \<open>The occupancy store (main\_window.py)\<close>

text \<open>
  The window keeps two stores that every operation below writes together: the cell widgets
  of \<^verbatim>\<open>schedule_table\<close> and the dictionary \<^verbatim>\<open>self.placed\<close> from \<open>(row, column)\<close> to
  an info dictionary. A widget is a single-course widget carrying its \<^verbatim>\<open>course_key\<close>, or
  a dual widget carrying the course keys of its odd and of its even half; the number is the
  identity of the widget object. An info dictionary holds \<^verbatim>\<open>course\<close> or (for a dual cell)
  \<^verbatim>\<open>courses\<close> \<open>= [odd, even]\<close>, \<^verbatim>\<open>rows\<close> and the identity of its \<^verbatim>\<open>widget\<close>. Colours,
  labels, row spans of the table and the sessions kept inside a dual widget are display
  state that no decision reads; they are left out. The class of the single-course widget
  is defined outside the files at hand; its constructor is taken to keep its first
  argument as \<^verbatim>\<open>course_key\<close>, and the name it may keep under \<^verbatim>\<open>course_info\<close> is a
  parameter of the environment. Creating a widget is taken to succeed.
\<close>

type_synonym cell = "nat \<times> nat"

datatype widget = Course_widget nat string | Dual_widget nat string string

datatype info = Single_info string nat nat | Dual_info string string nat nat

record state =
  placed :: "(cell \<times> info) list"
  table :: "(cell \<times> widget) list"
  next_widget :: nat

text \<open>
  What the operations read besides the stores: the catalog, the auto-select list (its items
  hold a course key and, optionally, a priority), the text of
  \<^verbatim>\<open>translator.t('messages.unknown')\<close>, and the name a single-course widget keeps under
  \<^verbatim>\<open>course_info\<close> (\<open>None\<close> when it keeps none).
\<close>

record env =
  COURSES :: catalog
  auto_select_list :: "(string \<times> int option) list"
  unknown_text :: string
  course_info_name :: "string \<Rightarrow> string option"

definition info_rows :: "info \<Rightarrow> nat" where
  "info_rows i = (case i of Single_info c r w \<Rightarrow> r | Dual_info odd_key even_key r w \<Rightarrow> r)"

definition info_course :: "info \<Rightarrow> string option" where
  "info_course i = (case i of Single_info c r w \<Rightarrow> Some c | Dual_info odd_key even_key r w \<Rightarrow> None)"

definition is_dual :: "info \<Rightarrow> bool" where
  "is_dual i = (case i of Single_info c r w \<Rightarrow> False | Dual_info odd_key even_key r w \<Rightarrow> True)"

text \<open>The widget object an info dictionary refers to.\<close>

definition info_widget :: "info \<Rightarrow> widget" where
  "info_widget i =
     (case i of Single_info c r w \<Rightarrow> Course_widget w c
              | Dual_info odd_key even_key r w \<Rightarrow> Dual_widget w odd_key even_key)"

text \<open>
  A course key occupies a cell: \<^verbatim>\<open>course_key in info.get('courses', [])\<close> for a dual
  cell, \<^verbatim>\<open>info.get('course') == course_key\<close> otherwise.
\<close>

definition occupies :: "string \<Rightarrow> info \<Rightarrow> bool" where
  "occupies k i =
     (case i of Single_info c r w \<Rightarrow> c = k | Dual_info odd_key even_key r w \<Rightarrow> k = odd_key \<or> k = even_key)"

text \<open>\<^verbatim>\<open>get_course_priority\<close>: the first item of the list with this key and a priority set.\<close>

fun get_course_priority :: "(string \<times> int option) list \<Rightarrow> string \<Rightarrow> int" where
  "get_course_priority [] course_key = 999"
| "get_course_priority ((key, priority) # items) course_key =
     (if key = course_key
      then (case priority of
              Some p \<Rightarrow> p
            | None \<Rightarrow> get_course_priority items course_key)
      else get_course_priority items course_key)"

subsection \<open>Removing a course\<close>

definition remove_placed_by_start :: "cell \<Rightarrow> state \<Rightarrow> state" where
  "remove_placed_by_start start_tuple st =
     (case map_of (placed st) start_tuple of
        None \<Rightarrow> st
      | Some i \<Rightarrow>
          st\<lparr>table := AList.delete start_tuple (table st),
             placed := AList.delete start_tuple (placed st)\<rparr>)"

text \<open>\<^verbatim>\<open>SimpleDualCourseWidget.get_other_course_data(...)['course_key']\<close>\<close>

definition get_other_course_key :: "widget \<Rightarrow> string \<Rightarrow> string" where
  "get_other_course_key w removed_course_key =
     (case w of
        Dual_widget n odd_key even_key \<Rightarrow> if removed_course_key = odd_key then even_key else odd_key
      | Course_widget n c \<Rightarrow> c)"

text \<open>
  \<^verbatim>\<open>has_other_sessions\<close>: some cell outside \<open>excluded\<close> is occupied by the other course.
\<close>

definition has_other_sessions :: "(cell \<times> info) list \<Rightarrow> string \<Rightarrow> cell list \<Rightarrow> bool" where
  "has_other_sessions items other_course_key excluded =
     list_ex (\<lambda>(p, oinfo). p \<notin> set excluded \<and> occupies other_course_key oinfo) items"

text \<open>
  The scan shared by \<^verbatim>\<open>remove_course_from_schedule\<close> (nothing excluded) and
  \<^verbatim>\<open>_remove_course_sessions_except_cell\<close> (one cell excluded): it sorts the cells of the
  course into \<^verbatim>\<open>to_convert\<close> (dual cells whose other course has other sessions) and
  \<^verbatim>\<open>to_remove\<close> (the other dual cells, and the single cells of the course).
\<close>

fun removal_scan ::
  "(cell \<times> info) list \<Rightarrow> string \<Rightarrow> cell list \<Rightarrow> (cell \<times> info) list \<Rightarrow>
   (cell \<times> widget) list \<times> cell list" where
  "removal_scan items course_key except [] = ([], [])"
| "removal_scan items course_key except ((p, i) # rest) =
     (let (to_convert, to_remove) = removal_scan items course_key except rest
      in if p \<in> set except then (to_convert, to_remove)
         else if is_dual i
         then (if occupies course_key i
               then (if has_other_sessions items
                          (get_other_course_key (info_widget i) course_key) (except @ [p])
                     then ((p, info_widget i) # to_convert, to_remove)
                     else (to_convert, p # to_remove))
               else (to_convert, to_remove))
         else (if occupies course_key i then (to_convert, p # to_remove)
               else (to_convert, to_remove)))"

text \<open>The two loops that follow the scan; \<open>convert\<close> is \<^verbatim>\<open>remove_course_from_dual_widget\<close>.\<close>

fun convert_all ::
  "(widget \<Rightarrow> state \<Rightarrow> state option) \<Rightarrow> (cell \<times> widget) list \<Rightarrow> state \<Rightarrow> state option" where
  "convert_all convert [] st = Some st"
| "convert_all convert ((p, dual_widget) # rest) st =
     (case convert dual_widget st of
        None \<Rightarrow> None
      | Some st' \<Rightarrow> convert_all convert rest st')"

fun remove_all :: "cell list \<Rightarrow> state \<Rightarrow> state" where
  "remove_all [] st = st"
| "remove_all (start_tuple # rest) st = remove_all rest (remove_placed_by_start start_tuple st)"

definition remove_course_sessions_except_cell ::
  "(widget \<Rightarrow> state \<Rightarrow> state option) \<Rightarrow> string \<Rightarrow> cell \<Rightarrow> state \<Rightarrow> state option" where
  "remove_course_sessions_except_cell convert course_key except_cell st =
     (case removal_scan (placed st) course_key [except_cell] (placed st) of
        (to_convert, to_remove) \<Rightarrow>
          (case convert_all convert to_convert st of
             None \<Rightarrow> None
           | Some st' \<Rightarrow> Some (remove_all to_remove st')))"

text \<open>
  \<^verbatim>\<open>remove_course_from_dual_widget\<close> and \<^verbatim>\<open>_remove_course_sessions_except_cell\<close> call
  each other. The first argument bounds the depth of these calls; \<open>None\<close> is a call chain
  deeper than the bound.
\<close>

fun remove_course_from_dual_widget ::
  "nat \<Rightarrow> env \<Rightarrow> string \<Rightarrow> widget \<Rightarrow> state \<Rightarrow> state option" where
  "remove_course_from_dual_widget 0 E course_key dual_widget st = None"
| "remove_course_from_dual_widget (Suc depth) E course_key dual_widget st =
     (let other_course_key = get_other_course_key dual_widget course_key
      in case find (\<lambda>(p, i). info_widget i = dual_widget \<and> is_dual i) (placed st) of
           None \<Rightarrow> Some st
         | Some (widget_position, i) \<Rightarrow>
             (let row_span = info_rows i;
                  st1 = st\<lparr>table := AList.delete widget_position (table st),
                           placed := AList.delete widget_position (placed st)\<rparr>
              in if map_of (COURSES E) other_course_key = None then Some st1
                 else
                   (let n = next_widget st1;
                        st2 = st1\<lparr>table :=
                                   AList.update widget_position (Course_widget n other_course_key)
                                     (table st1),
                                 placed :=
                                   AList.update widget_position (Single_info other_course_key row_span n)
                                     (placed st1),
                                 next_widget := Suc n\<rparr>
                    in remove_course_sessions_except_cell
                         (remove_course_from_dual_widget depth E course_key)
                         course_key widget_position st2)))"

definition remove_course_from_schedule :: "env \<Rightarrow> string \<Rightarrow> state \<Rightarrow> state option" where
  "remove_course_from_schedule E course_key st =
     (case removal_scan (placed st) course_key [] (placed st) of
        (to_convert, to_remove) \<Rightarrow>
          (case convert_all
                  (remove_course_from_dual_widget (Suc (length (placed st))) E course_key)
                  to_convert st of
             None \<Rightarrow> None
           | Some st' \<Rightarrow> Some (remove_all to_remove st')))"

subsection \<open>Placing a course: the placements\<close>

text \<open>
  The first loop of \<^verbatim>\<open>_add_course_internal\<close>. A session whose day is not in \<^verbatim>\<open>DAYS\<close> is
  skipped. A session whose start or end is not in \<^verbatim>\<open>EXTENDED_TIME_SLOTS\<close> is skipped
  after a warning that names the course: \<^verbatim>\<open>course["name"]\<close> raises KeyError there for a
  course without the key \<^verbatim>\<open>name\<close>. The other sessions give \<open>(srow, col, span, sess)\<close>.
\<close>

type_synonym placement = "nat \<times> nat \<times> nat \<times> session"

fun placements_of :: "course \<Rightarrow> session list \<Rightarrow> error + placement list" where
  "placements_of c [] = Inr []"
| "placements_of c (sess # rest) =
     (case index_of DAYS (sess_day sess) of
        None \<Rightarrow> placements_of c rest
      | Some col \<Rightarrow>
          (case index_of EXTENDED_TIME_SLOTS (sess_start sess) of
             None \<Rightarrow> if course_name c = None then Inl KeyError else placements_of c rest
           | Some srow \<Rightarrow>
               (case index_of EXTENDED_TIME_SLOTS (sess_end sess) of
                  None \<Rightarrow> if course_name c = None then Inl KeyError else placements_of c rest
                | Some erow \<Rightarrow>
                    (case placements_of c rest of
                       Inl e \<Rightarrow> Inl e
                     | Inr placements \<Rightarrow>
                         Inr ((srow, col, nat (max 1 (int erow - int srow)), sess) #
                              placements)))))"

subsection \<open>Placing a course: the two scans for conflicts\<close>

text \<open>
  A conflict is \<open>((srow, col), (prow, pcol), course key, course name)\<close>. An entry of
  \<^verbatim>\<open>compatible_slots\<close> keeps, of the dictionary \<^verbatim>\<open>existing\<close>, the value of
  \<^verbatim>\<open>.get('course')\<close> (the only key of it read later), the existing session, and the
  existing widget when the entry comes from the scan of the table.
\<close>

type_synonym conflict = "cell \<times> cell \<times> string \<times> string"

record compat =
  existing_course :: "string option"
  existing_session :: session
  existing_widget :: "widget option"

type_synonym scan_result = "conflict list \<times> (cell \<times> compat) list"

text \<open>
  The search for the session of the existing course that starts at \<open>srow\<close> and ends at
  \<open>srow + span\<close> on the given day; a session whose times are not grid slots is passed over.
\<close>

fun find_exact_session :: "session list \<Rightarrow> string \<Rightarrow> nat \<Rightarrow> nat \<Rightarrow> session option" where
  "find_exact_session [] d srow row_span = None"
| "find_exact_session (s # rest) d srow row_span =
     (if sess_day s = d
      then (case index_of EXTENDED_TIME_SLOTS (sess_start s) of
              None \<Rightarrow> find_exact_session rest d srow row_span
            | Some existing_start \<Rightarrow>
                (case index_of EXTENDED_TIME_SLOTS (sess_end s) of
                   None \<Rightarrow> find_exact_session rest d srow row_span
                 | Some existing_end \<Rightarrow>
                     if existing_start = srow \<and> existing_end = srow + row_span then Some s
                     else find_exact_session rest d srow row_span))
      else find_exact_session rest d srow row_span)"

text \<open>The name given to a conflict with a dual widget.\<close>

definition dual_conflict_name :: "env \<Rightarrow> string \<Rightarrow> string \<Rightarrow> string" where
  "dual_conflict_name E odd_key even_key =
     (let odd_course_name = (case map_of (COURSES E) odd_key of None \<Rightarrow> [] | Some c \<Rightarrow> get_name c);
          even_course_name = (case map_of (COURSES E) even_key of None \<Rightarrow> [] | Some c \<Rightarrow> get_name c)
      in if odd_course_name \<noteq> [] \<and> even_course_name \<noteq> []
         then odd_course_name @ '' / '' @ even_course_name
         else if odd_course_name \<noteq> [] then odd_course_name
         else if even_course_name \<noteq> [] then even_course_name
         else unknown_text E)"

text \<open>The name given to a conflict with a single widget whose course is in the catalog.\<close>

definition widget_conflict_name :: "env \<Rightarrow> string \<Rightarrow> course \<Rightarrow> string" where
  "widget_conflict_name E existing_course_key c =
     (let existing_course_name = strip (get_name c)
      in if existing_course_name \<noteq> [] then existing_course_name
         else (case course_info_name E existing_course_key of
                 None \<Rightarrow> unknown_text E
               | Some n \<Rightarrow> if n \<noteq> [] then n else unknown_text E))"

text \<open>
  The first scan, over the cell widgets of the table, for one placement. \<open>ex_info\<close> is
  \<^verbatim>\<open>self.placed.get((srow, col), {'course': existing_course_key, ...})\<close>.
\<close>

definition scan_table_cell :: "env \<Rightarrow> state \<Rightarrow> string \<Rightarrow> placement \<Rightarrow> scan_result \<Rightarrow> scan_result" where
  "scan_table_cell E st course_key pl acc =
     (case pl of (srow, col, row_span, sess) \<Rightarrow>
      case acc of (conflicts, compatible_slots) \<Rightarrow>
      (case map_of (table st) (srow, col) of
         None \<Rightarrow> acc
       | Some (Dual_widget n odd_key even_key) \<Rightarrow>
           if odd_key = course_key \<or> even_key = course_key then acc
           else (conflicts @ [((srow, col), (srow, col), ''dual_widget'',
                               dual_conflict_name E odd_key even_key)],
                 compatible_slots)
       | Some (Course_widget n existing_course_key) \<Rightarrow>
           if existing_course_key = course_key then acc
           else
             (case map_of (COURSES E) existing_course_key of
                Some c \<Rightarrow>
                  (let existing_course_name = widget_conflict_name E existing_course_key c
                   in case find_exact_session (course_sessions c) (sess_day sess) srow row_span of
                        Some existing_sess \<Rightarrow>
                          if is_compatible (get_parity sess) (get_parity existing_sess)
                          then (conflicts,
                                AList.update (srow, col)
                                  \<lparr>existing_course =
                                     (case map_of (placed st) (srow, col) of
                                        None \<Rightarrow> Some existing_course_key
                                      | Some ex_info \<Rightarrow> info_course ex_info),
                                   existing_session = existing_sess,
                                   existing_widget = Some (Course_widget n existing_course_key)\<rparr>
                                  compatible_slots)
                          else (conflicts @ [((srow, col), (srow, col), existing_course_key,
                                              existing_course_name)],
                                compatible_slots)
                      | None \<Rightarrow>
                          (conflicts @ [((srow, col), (srow, col), existing_course_key,
                                         existing_course_name)],
                           compatible_slots))
              | None \<Rightarrow>
                  if existing_course_key \<noteq> []
                  then (conflicts @ [((srow, col), (srow, col), existing_course_key,
                                      (case course_info_name E existing_course_key of
                                         None \<Rightarrow> unknown_text E
                                       | Some n \<Rightarrow> n))],
                        compatible_slots)
                  else acc)))"

fun scan_table :: "env \<Rightarrow> state \<Rightarrow> string \<Rightarrow> placement list \<Rightarrow> scan_result \<Rightarrow> scan_result" where
  "scan_table E st course_key [] acc = acc"
| "scan_table E st course_key (pl # rest) acc =
     scan_table E st course_key rest (scan_table_cell E st course_key pl acc)"

text \<open>
  The loop of the second scan over the sessions of an existing course: it stops at the first
  session of the same day whose times are not grid slots (\<open>Bad_slot\<close>) or overlap the new
  session (\<open>Compatible\<close> by parity, or \<open>Clash\<close>).
\<close>

datatype session_match = No_match | Bad_slot | Compatible session | Clash

fun match_overlapping :: "session list \<Rightarrow> session \<Rightarrow> nat \<Rightarrow> nat \<Rightarrow> session_match" where
  "match_overlapping [] sess srow row_span = No_match"
| "match_overlapping (existing_sess # rest) sess srow row_span =
     (if sess_day existing_sess \<noteq> sess_day sess then match_overlapping rest sess srow row_span
      else (case index_of EXTENDED_TIME_SLOTS (sess_start existing_sess) of
              None \<Rightarrow> Bad_slot
            | Some existing_start \<Rightarrow>
                (case index_of EXTENDED_TIME_SLOTS (sess_end existing_sess) of
                   None \<Rightarrow> Bad_slot
                 | Some existing_end \<Rightarrow>
                     if \<not> (srow + row_span \<le> existing_start \<or> existing_end \<le> srow)
                     then (if is_compatible (get_parity sess) (get_parity existing_sess)
                           then Compatible existing_sess
                           else Clash)
                     else match_overlapping rest sess srow row_span)))"

definition placed_conflict_name :: "env \<Rightarrow> course \<Rightarrow> string" where
  "placed_conflict_name E c =
     (let existing_course_name = strip (get_name c)
      in if existing_course_name \<noteq> [] then existing_course_name else unknown_text E)"

text \<open>The body of the loop over \<^verbatim>\<open>self.placed.items()\<close> for one placement and one entry.\<close>

definition scan_placed_entry ::
  "env \<Rightarrow> string \<Rightarrow> placement \<Rightarrow> cell \<times> info \<Rightarrow> scan_result \<Rightarrow> scan_result" where
  "scan_placed_entry E course_key pl entry acc =
     (case pl of (srow, col, row_span, sess) \<Rightarrow>
      case entry of ((prow, pcol), i) \<Rightarrow>
      case acc of (conflicts, compatible_slots) \<Rightarrow>
      if pcol \<noteq> col then acc
      else if occupies course_key i then acc
      else if \<not> (srow + row_span \<le> prow \<or> prow + info_rows i \<le> srow)
      then (let existing_course_key =
                  (case i of Dual_info odd_key even_key r w \<Rightarrow> odd_key | Single_info c r w \<Rightarrow> c)
            in case map_of (COURSES E) existing_course_key of
                 None \<Rightarrow> acc
               | Some c \<Rightarrow>
                   (case match_overlapping (course_sessions c) sess srow row_span of
                      Bad_slot \<Rightarrow> acc
                    | Compatible existing_sess \<Rightarrow>
                        if map_of compatible_slots (srow, col) = None \<and>
                           existing_course_key \<noteq> course_key
                        then (conflicts,
                              AList.update (srow, col)
                                \<lparr>existing_course = info_course i,
                                 existing_session = existing_sess,
                                 existing_widget = None\<rparr>
                                compatible_slots)
                        else acc
                    | Clash \<Rightarrow>
                        (conflicts @ [((srow, col), (prow, pcol), existing_course_key,
                                       placed_conflict_name E c)],
                         compatible_slots)
                    | No_match \<Rightarrow>
                        if placed_conflict_name E c \<noteq> [] \<and>
                           placed_conflict_name E c \<noteq> unknown_text E
                        then (conflicts @ [((srow, col), (prow, pcol), existing_course_key,
                                            placed_conflict_name E c)],
                              compatible_slots)
                        else acc))
      else acc)"

fun scan_placed_entries ::
  "env \<Rightarrow> string \<Rightarrow> placement \<Rightarrow> (cell \<times> info) list \<Rightarrow> scan_result \<Rightarrow> scan_result" where
  "scan_placed_entries E course_key pl [] acc = acc"
| "scan_placed_entries E course_key pl (entry # rest) acc =
     scan_placed_entries E course_key pl rest (scan_placed_entry E course_key pl entry acc)"

fun scan_placed :: "env \<Rightarrow> state \<Rightarrow> string \<Rightarrow> placement list \<Rightarrow> scan_result \<Rightarrow> scan_result" where
  "scan_placed E st course_key [] acc = acc"
| "scan_placed E st course_key (pl # rest) acc =
     (case pl of (srow, col, row_span, sess) \<Rightarrow>
        if map_of (snd acc) (srow, col) \<noteq> None then scan_placed E st course_key rest acc
        else scan_placed E st course_key rest
               (scan_placed_entries E course_key pl (placed st) acc))"

definition find_conflicts :: "env \<Rightarrow> state \<Rightarrow> string \<Rightarrow> placement list \<Rightarrow> scan_result" where
  "find_conflicts E st course_key placements =
     scan_placed E st course_key placements (scan_table E st course_key placements ([], []))"

subsection \<open>Placing a course: priorities and confirmation\<close>

text \<open>
  The name of a conflict as the priority loop resolves it: an empty or unknown name is
  replaced by the name of the course in the catalog, if the course is there.
\<close>

definition resolve_conflict_name :: "env \<Rightarrow> string \<Rightarrow> string \<Rightarrow> string" where
  "resolve_conflict_name E conflict_course_key conflict_name =
     (if conflict_name = [] \<or> conflict_name = unknown_text E
      then (case map_of (COURSES E) conflict_course_key of
              None \<Rightarrow> conflict_name
            | Some c \<Rightarrow> (case course_name c of None \<Rightarrow> unknown_text E | Some n \<Rightarrow> n))
      else conflict_name)"

text \<open>
  The loop over \<^verbatim>\<open>conflicts\<close>. Its state is the keys seen, the list
  \<^verbatim>\<open>higher_priority_conflicts\<close> of \<open>(key, name, priority)\<close> and the list of names
  \<^verbatim>\<open>conflict_details_list\<close> (the set \<^verbatim>\<open>conflict_names_set\<close> always holds the same names).
  A conflict is passed over when its key has been seen, or when its name stays empty or
  unknown.
\<close>

type_synonym priority_state = "string list \<times> (string \<times> string \<times> int) list \<times> string list"

fun priority_loop :: "env \<Rightarrow> int \<Rightarrow> conflict list \<Rightarrow> priority_state \<Rightarrow> priority_state" where
  "priority_loop E current_priority [] acc = acc"
| "priority_loop E current_priority (conf # rest) acc =
     (case conf of (new_cell, old_cell, conflict_course_key, conflict_name0) \<Rightarrow>
      case acc of (conflict_course_keys, higher_priority_conflicts, conflict_details) \<Rightarrow>
      if conflict_course_key \<in> set conflict_course_keys
      then priority_loop E current_priority rest acc
      else (let conflict_name = resolve_conflict_name E conflict_course_key conflict_name0
            in if conflict_name = [] \<or> conflict_name = unknown_text E
               then priority_loop E current_priority rest acc
               else (let conflict_priority =
                           get_course_priority (auto_select_list E) conflict_course_key
                     in priority_loop E current_priority rest
                          (conflict_course_keys @ [conflict_course_key],
                           (if conflict_priority < current_priority
                            then higher_priority_conflicts @
                                 [(conflict_course_key, conflict_name, conflict_priority)]
                            else higher_priority_conflicts),
                           (if conflict_name \<in> set conflict_details then conflict_details
                            else conflict_details @ [conflict_name])))))"

text \<open>
  The courses removed after the user confirms: the keys of the conflicts other than the
  markers \<^verbatim>\<open>'dual_widget'\<close> and \<^verbatim>\<open>'unknown'\<close>. The source collects them in a set; they
  are taken here in the order of their first conflict.
\<close>

fun conflicting_courses :: "conflict list \<Rightarrow> string list \<Rightarrow> string list" where
  "conflicting_courses [] acc = acc"
| "conflicting_courses (conf # rest) acc =
     (case conf of (new_cell, old_cell, rcourse, rname) \<Rightarrow>
        if rcourse \<noteq> [] \<and> rcourse \<noteq> ''dual_widget'' \<and> rcourse \<noteq> ''unknown'' \<and>
           rcourse \<notin> set acc
        then conflicting_courses rest (acc @ [rcourse])
        else conflicting_courses rest acc)"

fun remove_courses :: "env \<Rightarrow> string list \<Rightarrow> state \<Rightarrow> state option" where
  "remove_courses E [] st = Some st"
| "remove_courses E (conflicting_course_key # rest) st =
     (case remove_course_from_schedule E conflicting_course_key st of
        None \<Rightarrow> None
      | Some st' \<Rightarrow> remove_courses E rest st')"

subsection \<open>Placing a course: writing the cells\<close>

datatype button = Yes | No | Cancel

text \<open>
  How a call of \<^verbatim>\<open>_add_course_internal\<close> ends: the course is not in the catalog; a
  warning names the conflicting courses of higher priority (the list holds key, name and
  priority of each; the dialog prints the names and the priorities); the user declines the
  removal of the conflicting courses; the course has conflicts and the caller asked for no
  dialog; the loop over the placements has run to its end; or an exception leaves the
  function. The source reads \<^verbatim>\<open>course["name"]\<close> when it builds the warning and the
  confirmation dialog and when it builds the widget of a single cell; for a course without
  the key \<^verbatim>\<open>name\<close> this raises KeyError.
\<close>

datatype outcome =
    Course_not_found
  | Rejected_higher_priority "(string \<times> string \<times> int) list"
  | Declined
  | Skipped_conflicts
  | Placed
  | Raised error

definition put_single :: "cell \<Rightarrow> string \<Rightarrow> nat \<Rightarrow> state \<Rightarrow> state" where
  "put_single c course_key row_span st =
     st\<lparr>table := AList.update c (Course_widget (next_widget st) course_key) (table st),
        placed := AList.update c (Single_info course_key row_span (next_widget st)) (placed st),
        next_widget := Suc (next_widget st)\<rparr>"

text \<open>
  Replacing whatever is at the cell by a new dual widget: the old widget and the old entry of
  \<^verbatim>\<open>self.placed\<close> are removed first, so the new entry goes to the end of the dictionary.
\<close>

definition put_dual :: "cell \<Rightarrow> string \<Rightarrow> string \<Rightarrow> nat \<Rightarrow> state \<Rightarrow> state" where
  "put_dual c odd_key even_key row_span st =
     st\<lparr>table :=
          AList.update c (Dual_widget (next_widget st) odd_key even_key)
            (AList.delete c (table st)),
        placed :=
          AList.update c (Dual_info odd_key even_key row_span (next_widget st))
            (AList.delete c (placed st)),
        next_widget := Suc (next_widget st)\<rparr>"

text \<open>
  Which of \<^verbatim>\<open>existing_dual_widget\<close> and \<^verbatim>\<open>existing_single_info\<close> the source finds at
  the cell: the widget of the table first, then the entry of \<^verbatim>\<open>self.placed\<close>, then the
  widget kept in the compatible slot. Of \<^verbatim>\<open>existing_single_info\<close> only
  \<^verbatim>\<open>.get('course')\<close> is read.
\<close>

datatype existing = Existing_dual | Existing_single "string option" | Existing_none

definition existing_at :: "state \<Rightarrow> cell \<Rightarrow> compat \<Rightarrow> existing" where
  "existing_at st c compat_info =
     (case map_of (table st) c of
        Some (Dual_widget n odd_key even_key) \<Rightarrow> Existing_dual
      | Some (Course_widget n k) \<Rightarrow> Existing_single (existing_course compat_info)
      | None \<Rightarrow>
          (case map_of (placed st) c of
             Some (Dual_info odd_key even_key r w) \<Rightarrow> Existing_dual
           | Some (Single_info k r w) \<Rightarrow> Existing_single (Some k)
           | None \<Rightarrow>
               (case existing_widget compat_info of
                  Some (Dual_widget n odd_key even_key) \<Rightarrow> Existing_dual
                | Some (Course_widget n k) \<Rightarrow> Existing_single (existing_course compat_info)
                | None \<Rightarrow> Existing_none)))"

text \<open>
  The loop over the placements that writes the cells. In a compatible slot
  \<^verbatim>\<open>COURSES[existing_info.get('course')]\<close> raises KeyError when the existing entry is a
  dual one or its course is not in the catalog, and so does \<^verbatim>\<open>course['name']\<close> for a
  single cell of a course without a name; the cells written before stay written.
\<close>

fun place_sessions ::
  "env \<Rightarrow> course \<Rightarrow> string \<Rightarrow> (cell \<times> compat) list \<Rightarrow> placement list \<Rightarrow> state \<Rightarrow>
   outcome \<times> state" where
  "place_sessions E c course_key compatible_slots [] st = (Placed, st)"
| "place_sessions E c course_key compatible_slots (pl # rest) st =
     (case pl of (srow, col, row_span, sess) \<Rightarrow>
      (case map_of compatible_slots (srow, col) of
         None \<Rightarrow>
           if course_name c = None then (Raised KeyError, st)
           else place_sessions E c course_key compatible_slots rest
                  (put_single (srow, col) course_key row_span st)
       | Some compat_info \<Rightarrow>
           (case existing_course compat_info of
              None \<Rightarrow> (Raised KeyError, st)
            | Some existing_key \<Rightarrow>
                if map_of (COURSES E) existing_key = None then (Raised KeyError, st)
                else
                  (let odd_even =
                         (if sess_parity sess = Some parity_odd then (course_key, existing_key)
                          else (existing_key, course_key))
                   in case existing_at st (srow, col) compat_info of
                        Existing_dual \<Rightarrow>
                          place_sessions E c course_key compatible_slots rest
                            (put_dual (srow, col) (fst odd_even) (snd odd_even) row_span st)
                      | Existing_none \<Rightarrow>
                          place_sessions E c course_key compatible_slots rest
                            (put_dual (srow, col) (fst odd_even) (snd odd_even) row_span st)
                      | Existing_single None \<Rightarrow>
                          place_sessions E c course_key compatible_slots rest
                            (put_dual (srow, col) (fst odd_even) (snd odd_even) row_span st)
                      | Existing_single (Some k) \<Rightarrow>
                          if k = [] then
                            place_sessions E c course_key compatible_slots rest
                              (put_dual (srow, col) (fst odd_even) (snd odd_even) row_span st)
                          else
                            (let existing_sess =
                                   (case find_exact_session
                                           (case map_of (COURSES E) k of
                                              None \<Rightarrow> []
                                            | Some ec \<Rightarrow> course_sessions ec)
                                           (sess_day (existing_session compat_info)) srow row_span of
                                      None \<Rightarrow> existing_session compat_info
                                    | Some s \<Rightarrow> s)
                             in if sess_parity existing_sess = Some parity_odd
                                then place_sessions E c course_key compatible_slots rest
                                       (put_dual (srow, col) k course_key row_span st)
                                else place_sessions E c course_key compatible_slots rest
                                       (put_dual (srow, col) course_key k row_span st))))))"

subsection \<open>Placing a course\<close>

text \<open>
  \<^verbatim>\<open>_add_course_internal(course_key, ask_on_conflict)\<close>. \<open>answer\<close> is the button the user
  presses if the confirmation dialog is shown. The result is \<open>None\<close> only if a removal
  exceeds its depth bound. A record of the catalog stands for a dictionary that is not empty
  (the entries carry further keys, such as the instructor), so \<^verbatim>\<open>if not course\<close> is the
  test that the key is absent.
\<close>

definition add_course_internal ::
  "env \<Rightarrow> button \<Rightarrow> state \<Rightarrow> string \<Rightarrow> bool \<Rightarrow> (outcome \<times> state) option" where
  "add_course_internal E answer st course_key ask_on_conflict =
     (case map_of (COURSES E) course_key of
        None \<Rightarrow> Some (Course_not_found, st)
      | Some c \<Rightarrow>
          (case course_schedule c of
             None \<Rightarrow> Some (Raised KeyError, st)
           | Some sch \<Rightarrow>
               (case placements_of c sch of
                  Inl e \<Rightarrow> Some (Raised e, st)
                | Inr placements \<Rightarrow>
                    (let found = find_conflicts E st course_key placements;
                         conflicts = fst found;
                         compatible_slots = snd found
                     in if conflicts \<noteq> [] \<and> ask_on_conflict
                        then
                          (let current_priority =
                                 get_course_priority (auto_select_list E) course_key;
                               resolved = priority_loop E current_priority conflicts ([], [], []);
                               higher_priority_conflicts = fst (snd resolved);
                               conflict_details = snd (snd resolved)
                           in if higher_priority_conflicts \<noteq> [] \<and> conflict_details \<noteq> []
                              then (if course_name c = None then Some (Raised KeyError, st)
                                    else Some (Rejected_higher_priority higher_priority_conflicts, st))
                              else if conflict_details = []
                              then Some (place_sessions E c course_key compatible_slots placements st)
                              else if course_name c = None then Some (Raised KeyError, st)
                              else
                                (case answer of
                                   Cancel \<Rightarrow> Some (Declined, st)
                                 | No \<Rightarrow> Some (Declined, st)
                                 | Yes \<Rightarrow>
                                     (case remove_courses E (conflicting_courses conflicts []) st of
                                        None \<Rightarrow> None
                                      | Some st' \<Rightarrow>
                                          Some (place_sessions E c course_key compatible_slots
                                                  placements st'))))
                        else if conflicts \<noteq> [] \<and> \<not> ask_on_conflict
                        then Some (Skipped_conflicts, st)
                        else Some (place_sessions E c course_key compatible_slots placements st)))))"

section \<open>The gap penalty in the words of the specification\<close>







section \<open>Invariants of the occupancy store\<close>

text \<open>
  \<^verbatim>\<open>self.placed\<close> is a dictionary, so its keys are distinct; every widget is a fresh
  object, so the widgets of the dual cells are distinct.
\<close>

definition store_ok :: "state \<Rightarrow> bool" where
  "store_ok st =
     (distinct (map fst (placed st)) \<and>
      distinct (map (\<lambda>(p, i). info_widget i) (filter (\<lambda>(p, i). is_dual i) (placed st))))"

text \<open>
  The number of dual cells; it bounds the depth of the mutual calls of a removal.
\<close>

definition ndual :: "state \<Rightarrow> nat" where
  "ndual st = length (filter (\<lambda>(p, i). is_dual i) (placed st))"

text \<open>
  How a removal of the course \<open>k\<close> may change the store: a cell stays as it is, or, if \<open>k\<close>
  occupies it, it is emptied or (a dual cell) becomes a single cell of the other course.
  The following predicates are used in the proofs only.
\<close>

definition evolves :: "string \<Rightarrow> state \<Rightarrow> state \<Rightarrow> bool" where
  "evolves k st st' =
     (\<forall>p. case map_of (placed st) p of
            None \<Rightarrow> map_of (placed st') p = None
          | Some i \<Rightarrow>
              map_of (placed st') p = Some i \<or>
              (occupies k i \<and>
               (map_of (placed st') p = None \<or>
                (is_dual i \<and>
                 (\<exists>w. map_of (placed st') p =
                        Some (Single_info (get_other_course_key (info_widget i) k) (info_rows i) w))))))"

definition step_ok :: "string \<Rightarrow> state \<Rightarrow> state \<Rightarrow> bool" where
  "step_ok k st st' =
     (distinct (map fst (placed st')) \<and> ndual st' \<le> ndual st \<and> evolves k st st')"

definition dual_unique :: "state \<Rightarrow> bool" where
  "dual_unique st =
     (\<forall>p q i j. map_of (placed st) p = Some i \<and> map_of (placed st) q = Some j \<and>
                is_dual i \<and> is_dual j \<and> info_widget i = info_widget j \<longrightarrow> p = q)"

definition no_dual_with :: "widget \<Rightarrow> state \<Rightarrow> bool" where
  "no_dual_with w st =
     (\<forall>q j. map_of (placed st) q = Some j \<and> is_dual j \<longrightarrow> info_widget j \<noteq> w)"

definition widget_has :: "string \<Rightarrow> widget \<Rightarrow> bool" where
  "widget_has k w =
     (case w of Dual_widget n odd_key even_key \<Rightarrow> k = odd_key \<or> k = even_key
              | Course_widget n c \<Rightarrow> False)"

definition conv_ok :: "nat \<Rightarrow> string \<Rightarrow> (widget \<Rightarrow> state \<Rightarrow> state option) \<Rightarrow> bool" where
  "conv_ok n k conv =
     (\<forall>st w. distinct (map fst (placed st)) \<and> dual_unique st \<and> ndual st < n \<and> widget_has k w \<longrightarrow>
        (\<exists>st'. conv w st = Some st' \<and> step_ok k st st' \<and> no_dual_with w st'))"


section \<open>Conditions and effects of a placement\<close>

text \<open>
  The cell and the span that the first loop of \<^verbatim>\<open>_add_course_internal\<close> computes for a
  session; \<open>None\<close> for a session that the loop skips, its day, start or end being off the
  grid.
\<close>

definition slot_of :: "session \<Rightarrow> (nat \<times> nat \<times> nat) option" where
  "slot_of sess =
     (case index_of DAYS (sess_day sess) of
        None \<Rightarrow> None
      | Some col \<Rightarrow>
          (case index_of EXTENDED_TIME_SLOTS (sess_start sess) of
             None \<Rightarrow> None
           | Some srow \<Rightarrow>
               (case index_of EXTENDED_TIME_SLOTS (sess_end sess) of
                  None \<Rightarrow> None
                | Some erow \<Rightarrow> Some (srow, col, nat (max 1 (int erow - int srow))))))"

text \<open>
  A cell holds a course: \<^verbatim>\<open>self.placed\<close> has an entry for the cell that the course
  occupies, and the table has the widget of that entry in the cell.
\<close>

definition holds_course :: "string \<Rightarrow> state \<Rightarrow> cell \<Rightarrow> bool" where
  "holds_course k st p =
     (case map_of (placed st) p of
        None \<Rightarrow> False
      | Some i \<Rightarrow> occupies k i \<and> map_of (table st) p = Some (info_widget i))"


text \<open>
  A session of the course meets a dual cell of two other courses: the cell is in the column
  of the session and its rows overlap the rows of the session.
\<close>

definition meets_dual :: "string \<Rightarrow> state \<Rightarrow> session \<Rightarrow> bool" where
  "meets_dual course_key st sess =
     (case slot_of sess of
        None \<Rightarrow> False
      | Some (srow, col, row_span) \<Rightarrow>
          list_ex (\<lambda>((prow, pcol), i).
                     is_dual i \<and> \<not> occupies course_key i \<and> pcol = col \<and>
                     \<not> (srow + row_span \<le> prow \<or> prow + info_rows i \<le> srow))
            (placed st))"






section \<open>Well-formed catalogs and sample inputs\<close>

text \<open>
  A catalog whose sessions all carry time strings that convert, and one whose courses in
  addition all have the \<^verbatim>\<open>schedule\<close> key.
\<close>

definition catalog_times_ok :: "catalog \<Rightarrow> bool" where
  "catalog_times_ok C =
     list_all (\<lambda>(k, v). list_all times_ok (course_sessions v)) C"

definition catalog_ok :: "catalog \<Rightarrow> bool" where
  "catalog_ok C =
     list_all (\<lambda>(k, v). course_schedule v \<noteq> None \<and> list_all times_ok (course_sessions v)) C"

text \<open>A small catalog used to evaluate the functions.\<close>

definition mk_session :: "string \<Rightarrow> string \<Rightarrow> string \<Rightarrow> string \<Rightarrow> session" where
  "mk_session d s e p = \<lparr>sess_day = d, sess_start = s, sess_end = e, sess_parity = Some p\<rparr>"

definition mk_course :: "string \<Rightarrow> string \<Rightarrow> session list \<Rightarrow> course" where
  "mk_course code name sch =
     \<lparr>course_code = Some code, course_name = Some name, course_schedule = Some sch\<rparr>"

definition demo_catalog :: catalog where
  "demo_catalog =
     [(''A1'', mk_course ''A_1'' ''Algebra'' [mk_session saturday ''08:00'' ''10:00'' []]),
      (''A2'', mk_course ''A_2'' ''Algebra'' [mk_session friday ''08:00'' ''10:00'' []]),
      (''B1'', mk_course ''B_1'' ''Biology''
         [mk_session saturday ''09:00'' ''11:00'' [], mk_session saturday ''12:00'' ''13:00'' []]),
      (''E1'', mk_course ''E_1'' ''Essay'' [])]"

text \<open>
  A catalog, an environment and stores used to evaluate the operations on the occupancy
  store: \<open>O1\<close> is held in odd weeks and \<open>V1\<close> in even weeks at the same time, \<open>N1\<close> and
  \<open>Q1\<close> (a course without a name) every week at that time; \<open>M1\<close> has two sessions on the
  grid, one that starts off the grid and one on a day that does not exist; \<open>W1\<close> has a
  session on Friday and one in even weeks on Saturday from 09:00 to 10:00, inside the time of
  \<open>O1\<close> and \<open>V1\<close>; \<open>X1\<close> is a record without the key \<^verbatim>\<open>name\<close>. \<open>dual_store\<close> is
  the store after placing \<open>O1\<close> and then \<open>V1\<close> on the empty store.
\<close>

definition occupancy_catalog :: catalog where
  "occupancy_catalog =
     [(''O1'', mk_course ''O_1'' ''Optics'' [mk_session saturday ''08:00'' ''10:00'' parity_odd]),
      (''V1'', mk_course ''V_1'' ''Vectors'' [mk_session saturday ''08:00'' ''10:00'' parity_even]),
      (''N1'', mk_course ''N_1'' ''Networks'' [mk_session saturday ''08:00'' ''10:00'' []]),
      (''Q1'', mk_course ''Q_1'' [] [mk_session saturday ''08:00'' ''10:00'' []]),
      (''M1'', mk_course ''M_1'' ''Mixed''
         [mk_session saturday ''08:00'' ''10:00'' [], mk_session sunday ''08:15'' ''10:00'' [],
          mk_session ''Someday'' ''08:00'' ''10:00'' [], mk_session monday ''10:00'' ''12:00'' []]),
      (''W1'', mk_course ''W_1'' ''Waves''
         [mk_session friday ''08:00'' ''10:00'' [],
          mk_session saturday ''09:00'' ''10:00'' parity_even]),
      (''X1'', \<lparr>course_code = Some ''X_1'', course_name = None,
                course_schedule = Some [mk_session sunday ''08:00'' ''10:00'' []]\<rparr>)]"

definition demo_env :: env where
  "demo_env =
     \<lparr>COURSES = occupancy_catalog,
      auto_select_list = [(''V1'', Some 1), (''N1'', Some 2), (''Q1'', Some 1)],
      unknown_text = ''Unknown'',
      course_info_name = (\<lambda>k. None)\<rparr>"

definition empty_store :: state where
  "empty_store = \<lparr>placed = [], table = [], next_widget = 0\<rparr>"

definition dual_store :: state where
  "dual_store =
     \<lparr>placed = [((2, 0), Dual_info ''O1'' ''V1'' 4 1)],
      table = [((2, 0), Dual_widget 1 ''O1'' ''V1'')],
      next_widget = 2\<rparr>"

definition mixed_store :: state where
  "mixed_store =
     \<lparr>placed = [((2, 0), Dual_info ''O1'' ''V1'' 4 1), ((6, 2), Single_info ''V1'' 4 2),
                ((10, 1), Single_info ''O1'' 2 3)],
      table = [((2, 0), Dual_widget 1 ''O1'' ''V1''), ((6, 2), Course_widget 2 ''V1''),
               ((10, 1), Course_widget 3 ''O1'')],
      next_widget = 4\<rparr>"

text \<open>
  The stores after placing \<open>V1\<close>, respectively \<open>Q1\<close>, on the empty store.
\<close>

definition v_store :: state where
  "v_store =
     \<lparr>placed = [((2, 0), Single_info ''V1'' 4 0)],
      table = [((2, 0), Course_widget 0 ''V1'')],
      next_widget = 1\<rparr>"

definition q_store :: state where
  "q_store =
     \<lparr>placed = [((2, 0), Single_info ''Q1'' 4 0)],
      table = [((2, 0), Course_widget 0 ''Q1'')],
      next_widget = 1\<rparr>"

text \<open>
  A catalog in which \<open>O2\<close> (odd weeks) and \<open>V2\<close> (even weeks) share both of their
  sessions; \<open>twin_store\<close> is the store after placing \<open>O2\<close> and then \<open>V2\<close> on the empty
  store.
\<close>

definition twin_env :: env where
  "twin_env =
     \<lparr>COURSES =
        [(''O2'', mk_course ''O_2'' ''Orbits''
            [mk_session saturday ''08:00'' ''10:00'' parity_odd,
             mk_session sunday ''08:00'' ''10:00'' parity_odd]),
         (''V2'', mk_course ''V_2'' ''Valves''
            [mk_session saturday ''08:00'' ''10:00'' parity_even,
             mk_session sunday ''08:00'' ''10:00'' parity_even])],
      auto_select_list = [],
      unknown_text = ''Unknown'',
      course_info_name = (\<lambda>k. None)\<rparr>"

definition twin_store :: state where
  "twin_store =
     \<lparr>placed = [((2, 0), Dual_info ''O2'' ''V2'' 4 2), ((2, 1), Dual_info ''O2'' ''V2'' 4 3)],
      table = [((2, 0), Dual_widget 2 ''O2'' ''V2''), ((2, 1), Dual_widget 3 ''O2'' ''V2'')],
      next_widget = 4\<rparr>"


section \<open>Properties of the conflict check\<close>

lemma to_minutes_error: "to_minutes t = Inl e \<Longrightarrow> e = ValueError"
  by (auto simp: to_minutes_def split: list.splits option.splits)

lemma parses_iff: "parses t \<longleftrightarrow> (\<exists>v. to_minutes t = Inr v)"
  by (auto simp: parses_def split: sum.splits)

lemma is_compatible_sym: "is_compatible p q = is_compatible q p"
  by (auto simp: is_compatible_def)

lemma overlap_sym: "overlap s1 e1 s2 e2 = overlap s2 e2 s1 e1"
  by (auto simp: overlap_def)

lemma session_pair_conflict_sym: "session_pair_conflict a b = session_pair_conflict b a"
  using is_compatible_sym[of "get_parity a" "get_parity b"]
  by (auto simp: session_pair_conflict_def overlap_sym split: sum.splits dest!: to_minutes_error)

lemma session_pair_conflict_total:
  "times_ok a \<Longrightarrow> times_ok b \<Longrightarrow> session_pair_conflict a b \<noteq> Inl e"
  by (auto simp: session_pair_conflict_def times_ok_def parses_iff)

lemma conflict_inner_False:
  "conflict_inner a bs = Inr False \<longleftrightarrow> (\<forall>b\<in>set bs. session_pair_conflict a b = Inr False)"
proof (induction bs)
  case Nil
  show ?case by simp
next
  case (Cons b bs)
  show ?case
  proof (cases "session_pair_conflict a b")
    case (Inl e)
    then show ?thesis by simp
  next
    case (Inr r)
    with Cons show ?thesis by (cases r) simp_all
  qed
qed

lemma conflict_inner_total:
  "times_ok a \<Longrightarrow> \<forall>b\<in>set bs. times_ok b \<Longrightarrow> conflict_inner a bs \<noteq> Inl e"
proof (induction bs)
  case Nil
  then show ?case by simp
next
  case (Cons b bs)
  show ?case
  proof (cases "session_pair_conflict a b")
    case (Inl e')
    with Cons.prems session_pair_conflict_total[of a b e'] show ?thesis by simp
  next
    case (Inr r)
    with Cons show ?thesis by (cases r) simp_all
  qed
qed

lemma schedules_conflict_False:
  "schedules_conflict sch1 sch2 = Inr False \<longleftrightarrow>
     (\<forall>a\<in>set sch1. \<forall>b\<in>set sch2. session_pair_conflict a b = Inr False)"
proof (induction sch1)
  case Nil
  show ?case by simp
next
  case (Cons a sch1)
  show ?case
  proof (cases "conflict_inner a sch2")
    case (Inl e)
    then have "conflict_inner a sch2 \<noteq> Inr False" by simp
    with Inl show ?thesis unfolding conflict_inner_False by auto
  next
    case (Inr r)
    show ?thesis
    proof (cases r)
      case True
      with Inr have "conflict_inner a sch2 \<noteq> Inr False" by simp
      with Inr True show ?thesis unfolding conflict_inner_False by auto
    next
      case False
      with Inr have "conflict_inner a sch2 = Inr False" by simp
      then have "\<forall>b\<in>set sch2. session_pair_conflict a b = Inr False"
        by (simp add: conflict_inner_False)
      with Inr False Cons show ?thesis by simp
    qed
  qed
qed

lemma schedules_conflict_total:
  "\<forall>a\<in>set sch1. times_ok a \<Longrightarrow> \<forall>b\<in>set sch2. times_ok b \<Longrightarrow>
     schedules_conflict sch1 sch2 \<noteq> Inl e"
proof (induction sch1)
  case Nil
  then show ?case by simp
next
  case (Cons a sch1)
  show ?case
  proof (cases "conflict_inner a sch2")
    case (Inl e')
    with Cons.prems conflict_inner_total[of a sch2 e'] show ?thesis by simp
  next
    case (Inr r)
    with Cons show ?thesis by (cases r) simp_all
  qed
qed

lemma schedules_conflict_False_sym:
  "schedules_conflict sch1 sch2 = Inr False \<Longrightarrow> schedules_conflict sch2 sch1 = Inr False"
  unfolding schedules_conflict_False using session_pair_conflict_sym by metis

lemma schedules_conflict_returns_sym:
  assumes "schedules_conflict sch1 sch2 = Inr r" and "schedules_conflict sch2 sch1 = Inr r'"
  shows "r = r'"
proof (rule ccontr)
  assume "r \<noteq> r'"
  then consider "r" "\<not> r'" | "\<not> r" "r'" by blast
  then show False
  proof cases
    case 1
    with assms(2) have "schedules_conflict sch2 sch1 = Inr False" by simp
    then have "schedules_conflict sch1 sch2 = Inr False" by (rule schedules_conflict_False_sym)
    with assms(1) 1 show False by simp
  next
    case 2
    with assms(1) have "schedules_conflict sch1 sch2 = Inr False" by simp
    then have "schedules_conflict sch2 sch1 = Inr False" by (rule schedules_conflict_False_sym)
    with assms(2) 2 show False by simp
  qed
qed

lemma schedules_conflict_sym_ok:
  assumes "\<forall>a\<in>set sch1. times_ok a" and "\<forall>b\<in>set sch2. times_ok b"
  shows "schedules_conflict sch1 sch2 = schedules_conflict sch2 sch1"
proof -
  obtain r where r: "schedules_conflict sch1 sch2 = Inr r"
    using schedules_conflict_total[OF assms] by (cases "schedules_conflict sch1 sch2") auto
  obtain r' where r': "schedules_conflict sch2 sch1 = Inr r'"
    using schedules_conflict_total[OF assms(2) assms(1)]
    by (cases "schedules_conflict sch2 sch1") auto
  from schedules_conflict_returns_sym[OF r r'] r r' show ?thesis by simp
qed

lemma schedules_conflict_single:
  "schedules_conflict [a] [b] = session_pair_conflict a b"
  by (auto split: sum.splits bool.splits)

lemma schedules_conflict_empty_right: "schedules_conflict sch1 [] = Inr False"
  by (induction sch1) auto

lemma to_minutes_0800: "to_minutes ''08:00'' = Inr 480" by code_simp

lemma to_minutes_0900: "to_minutes ''09:00'' = Inr 540" by code_simp

lemma to_minutes_1000: "to_minutes ''10:00'' = Inr 600" by code_simp

lemma to_minutes_1100: "to_minutes ''11:00'' = Inr 660" by code_simp



text \<open>
  Claim C9. The conflict check is symmetric. For two sessions the two calls agree in every
  case, the exception included. For two session lists whose time strings all convert, both
  calls return and agree; and whenever both calls return, they return the same value.
\<close>

theorem conflict_check_symmetric:
  "schedules_conflict [a] [b] = schedules_conflict [b] [a] \<and>
   ((\<forall>s\<in>set sch1 \<union> set sch2. times_ok s) \<longrightarrow>
      schedules_conflict sch1 sch2 = schedules_conflict sch2 sch1 \<and>
      (\<exists>r. schedules_conflict sch1 sch2 = Inr r)) \<and>
   (schedules_conflict sch1 sch2 = Inr r1 \<and> schedules_conflict sch2 sch1 = Inr r2 \<longrightarrow> r1 = r2)"
proof (intro conjI impI)
  show "schedules_conflict [a] [b] = schedules_conflict [b] [a]"
    unfolding schedules_conflict_single by (rule session_pair_conflict_sym)
next
  assume ok: "\<forall>s\<in>set sch1 \<union> set sch2. times_ok s"
  then have ok1: "\<forall>s\<in>set sch1. times_ok s" and ok2: "\<forall>s\<in>set sch2. times_ok s" by auto
  show "schedules_conflict sch1 sch2 = schedules_conflict sch2 sch1"
    using schedules_conflict_sym_ok[OF ok1 ok2] .
  show "\<exists>r. schedules_conflict sch1 sch2 = Inr r"
    using schedules_conflict_total[OF ok1 ok2] by (cases "schedules_conflict sch1 sch2") auto
next
  assume "schedules_conflict sch1 sch2 = Inr r1 \<and> schedules_conflict sch2 sch1 = Inr r2"
  then show "r1 = r2" using schedules_conflict_returns_sym by blast
qed

theorem conflict_check_symmetric_witness:
  "schedules_conflict [mk_session saturday ''08:00'' ''10:00'' []]
     [mk_session friday ''08:00'' ''10:00'' [], mk_session saturday ''09:00'' ''11:00'' []] = Inr True \<and>
   schedules_conflict
     [mk_session friday ''08:00'' ''10:00'' [], mk_session saturday ''09:00'' ''11:00'' []]
     [mk_session saturday ''08:00'' ''10:00'' []] = Inr True"
proof -
  let ?p = "[mk_session saturday ''08:00'' ''10:00'' []]"
  let ?q = "[mk_session friday ''08:00'' ''10:00'' [], mk_session saturday ''09:00'' ''11:00'' []]"
  have ok: "\<forall>s\<in>set ?p \<union> set ?q. times_ok s"
    by (simp add: times_ok_def parses_def mk_session_def to_minutes_0800 to_minutes_0900
          to_minutes_1000 to_minutes_1100)
  have v: "schedules_conflict ?p ?q = Inr True"
    by (simp add: session_pair_conflict_def mk_session_def saturday_def friday_def
          is_compatible_def get_parity_def parity_even_def parity_odd_def overlap_def
          to_minutes_0800 to_minutes_0900 to_minutes_1000 to_minutes_1100)
  from conflict_check_symmetric[of _ _ ?p ?q] ok v show ?thesis by simp
qed


section \<open>Properties of the priority scheduler\<close>

lemma get_schedule_times_ok:
  assumes "catalog_times_ok C" and "get_schedule C k = Inr sch"
  shows "\<forall>s\<in>set sch. times_ok s"
proof -
  from assms(2) obtain v where v: "map_of C k = Some v"
    and sch: "sch = course_sessions v"
    by (auto simp: get_schedule_def split: option.splits)
  from v have "(k, v) \<in> set C" by (rule map_of_SomeD)
  with assms(1) sch show ?thesis
    by (fastforce simp: catalog_times_ok_def list_all_iff)
qed

lemma conflicts_with_selected_total:
  assumes "catalog_times_ok C" and "\<forall>s\<in>set cur. times_ok s"
  shows "\<forall>k\<in>set sel. map_of C k \<noteq> None \<Longrightarrow> conflicts_with_selected C cur sel \<noteq> Inl e"
proof (induction sel)
  case Nil
  show ?case by simp
next
  case (Cons k sel)
  then obtain sch where sch: "get_schedule C k = Inr sch"
    by (auto simp: get_schedule_def)
  have "\<forall>s\<in>set sch. times_ok s" using get_schedule_times_ok[OF assms(1) sch] .
  with assms(2) have "schedules_conflict cur sch \<noteq> Inl e" for e
    by (rule schedules_conflict_total)
  then obtain r where "schedules_conflict cur sch = Inr r"
    by (cases "schedules_conflict cur sch") auto
  with sch Cons show ?case by (cases r) simp_all
qed

lemma conflicts_with_selected_empty:
  "\<forall>k\<in>set sel. map_of C k \<noteq> None \<Longrightarrow> conflicts_with_selected C [] sel = Inr False"
  by (induction sel) (auto simp: get_schedule_def)

lemma greedy_loop_total:
  assumes "catalog_times_ok C"
  shows "\<forall>k\<in>set sel. map_of C k \<noteq> None \<Longrightarrow> greedy_loop C sel keys \<noteq> Inl e"
proof (induction keys arbitrary: sel)
  case Nil
  show ?case by simp
next
  case (Cons k keys)
  show ?case
  proof (cases "map_of C k")
    case None
    with Cons show ?thesis by simp
  next
    case (Some v)
    then obtain sch where sch: "get_schedule C k = Inr sch"
      by (simp add: get_schedule_def)
    have ok: "\<forall>s\<in>set sch. times_ok s" using get_schedule_times_ok[OF assms sch] .
    have "conflicts_with_selected C sch sel \<noteq> Inl e" for e
      using conflicts_with_selected_total[OF assms ok Cons.prems] .
    then obtain r where r: "conflicts_with_selected C sch sel = Inr r"
      by (cases "conflicts_with_selected C sch sel") auto
    have "\<forall>k\<in>set (sel @ [k]). map_of C k \<noteq> None" using Cons.prems Some by simp
    from Cons.IH[OF this] Cons.IH[OF Cons.prems] Some sch r show ?thesis
      by (cases r) simp_all
  qed
qed

lemma greedy_loop_keeps:
  "greedy_loop C sel keys = Inr res \<Longrightarrow> set sel \<subseteq> set res"
proof (induction keys arbitrary: sel)
  case Nil
  then show ?case by simp
next
  case (Cons k keys)
  then show ?case
    by (fastforce split: if_splits sum.splits bool.splits)
qed

lemma greedy_loop_selects_empty:
  assumes "\<forall>s\<in>set sel. map_of C s \<noteq> None"
    and "greedy_loop C sel keys = Inr res"
    and "k \<in> set keys" and "get_schedule C k = Inr []"
  shows "k \<in> set res"
  using assms
proof (induction keys arbitrary: sel)
  case Nil
  then show ?case by simp
next
  case (Cons x keys)
  show ?case
  proof (cases "map_of C x")
    case None
    with Cons.prems have "x \<noteq> k" by (auto simp: get_schedule_def)
    with Cons None show ?thesis by simp
  next
    case (Some v)
    then obtain sch where sch: "get_schedule C x = Inr sch"
      by (simp add: get_schedule_def)
    have ext: "\<forall>s\<in>set (sel @ [x]). map_of C s \<noteq> None" using Cons.prems(1) Some by simp
    show ?thesis
    proof (cases "x = k")
      case True
      with sch Cons.prems(4) have "sch = []" by simp
      then have "conflicts_with_selected C sch sel = Inr False"
        using conflicts_with_selected_empty[OF Cons.prems(1)] by simp
      with Cons.prems(2) Some sch have "greedy_loop C (sel @ [x]) keys = Inr res" by simp
      from greedy_loop_keeps[OF this] True show ?thesis by auto
    next
      case False
      with Cons.prems(3) have kin: "k \<in> set keys" by simp
      from Cons.prems(2) Some sch consider
        "greedy_loop C sel keys = Inr res" | "greedy_loop C (sel @ [x]) keys = Inr res"
        by (auto split: sum.splits bool.splits)
      then show ?thesis
      proof cases
        case 1
        from Cons.IH[OF Cons.prems(1) 1 kin Cons.prems(4)] show ?thesis .
      next
        case 2
        from Cons.IH[OF ext 2 kin Cons.prems(4)] show ?thesis .
      qed
    qed
  qed
qed

lemma demo_greedy: "create_greedy_schedule demo_catalog [''A1'', ''B1'', ''E1''] = Inr [''A1'', ''E1'']"
  by code_simp

lemma demo_catalog_times_ok: "catalog_times_ok demo_catalog"
  by code_simp

lemma demo_E1: "get_schedule demo_catalog ''E1'' = Inr []"
  by code_simp

text \<open>
  Claim C10. The conflict check returns false whenever one of its two schedules is the empty
  list. Consequently the greedy pass, whenever it returns, has selected every key of the
  priority order that is in the catalog with an empty (or absent) schedule, wherever the key
  stands in the order; and it does return on a catalog whose time strings all convert.
\<close>

theorem empty_schedule_never_conflicts:
  "schedules_conflict [] sch = Inr False \<and> schedules_conflict sch [] = Inr False \<and>
   (create_greedy_schedule C keys = Inr selected \<and> k \<in> set keys \<and> get_schedule C k = Inr [] \<longrightarrow>
      k \<in> set selected) \<and>
   (catalog_times_ok C \<longrightarrow> (\<exists>selected. create_greedy_schedule C keys = Inr selected))"
proof (intro conjI impI)
  show "schedules_conflict [] sch = Inr False" by simp
  show "schedules_conflict sch [] = Inr False" by (rule schedules_conflict_empty_right)
next
  assume "create_greedy_schedule C keys = Inr selected \<and> k \<in> set keys \<and> get_schedule C k = Inr []"
  then show "k \<in> set selected"
    using greedy_loop_selects_empty[of "[]" C keys selected k]
    by (simp add: create_greedy_schedule_def)
next
  assume "catalog_times_ok C"
  then have "greedy_loop C [] keys \<noteq> Inl e" for e
    using greedy_loop_total[of C "[]" keys e] by simp
  then show "\<exists>selected. create_greedy_schedule C keys = Inr selected"
    unfolding create_greedy_schedule_def by (cases "greedy_loop C [] keys") auto
qed

theorem empty_schedule_never_conflicts_witness:
  "create_greedy_schedule demo_catalog [''A1'', ''B1'', ''E1''] = Inr [''A1'', ''E1''] \<and>
   ''E1'' \<in> set [''A1'', ''B1'', ''E1''] \<and> get_schedule demo_catalog ''E1'' = Inr [] \<and>
   catalog_times_ok demo_catalog \<and> ''E1'' \<in> set [''A1'', ''E1'']"
  using empty_schedule_never_conflicts[of "[]" demo_catalog "[''A1'', ''B1'', ''E1'']"
      "[''A1'', ''E1'']" "''E1''"] demo_greedy demo_catalog_times_ok demo_E1
  by simp

text \<open>
  The greedy pass skips the keys that are not in the catalog: it gives the same result on
  the priority order with those keys removed.
\<close>

lemma greedy_loop_ignores_unknown:
  "greedy_loop C sel keys = greedy_loop C sel (filter (\<lambda>k. map_of C k \<noteq> None) keys)"
  by (induction keys arbitrary: sel) (auto split: sum.splits bool.splits)

text \<open>
  Claim C8. Keys of the priority order that are absent from the catalog are to be ignored by
  the greedy pass and by every skip-k alternative. On the order \<open>[X9, A1]\<close> with \<open>X9\<close> absent
  from the catalog, the greedy pass ignores \<open>X9\<close>, and the skip-1 alternative raises KeyError.
\<close>

theorem alternative_schedule_unknown_key:
  "create_greedy_schedule demo_catalog [''X9'', ''A1''] = Inr [''A1''] \<and>
   create_alternative_schedule demo_catalog [''X9'', ''A1''] 1 = Inl KeyError"
  by code_simp


section \<open>Properties of the combination generator\<close>

lemma index_schedule_ok:
  assumes "catalog_ok C" and "k \<in> fst ` set C"
  shows "\<exists>sch. index_schedule C k = Inr sch \<and> (\<forall>s\<in>set sch. times_ok s)"
proof -
  from assms(2) obtain v where v: "map_of C k = Some v"
    by (cases "map_of C k") (auto simp: map_of_eq_None_iff)
  then have "(k, v) \<in> set C" by (rule map_of_SomeD)
  with assms(1) have "course_schedule v \<noteq> None" and "\<forall>s\<in>set (course_sessions v). times_ok s"
    by (fastforce simp: catalog_ok_def list_all_iff)+
  with v show ?thesis
    by (auto simp: index_schedule_def course_sessions_def split: option.splits)
qed

lemma index_schedule_times_ok:
  assumes "catalog_ok C" and "index_schedule C k = Inr sch"
  shows "\<forall>s\<in>set sch. times_ok s"
proof -
  from assms(2) have "k \<in> fst ` set C"
    by (auto simp: index_schedule_def split: option.splits dest: map_of_SomeD intro: rev_image_eqI)
  from index_schedule_ok[OF assms(1) this] assms(2) show ?thesis by auto
qed

lemma conflicts_with_later_False:
  "conflicts_with_later C ki later = Inr False \<Longrightarrow> j < length later \<Longrightarrow>
     \<exists>si sj. index_schedule C ki = Inr si \<and> index_schedule C (later ! j) = Inr sj \<and>
             schedules_conflict si sj = Inr False"
proof (induction later arbitrary: j)
  case Nil
  then show ?case by simp
next
  case (Cons kj later)
  from Cons.prems(1) obtain si sj where
    si: "index_schedule C ki = Inr si" and sj: "index_schedule C kj = Inr sj"
    and c: "schedules_conflict si sj = Inr False"
    and rest: "conflicts_with_later C ki later = Inr False"
    by (auto split: sum.splits bool.splits)
  show ?case
  proof (cases j)
    case 0
    with si sj c show ?thesis by simp
  next
    case (Suc j')
    with Cons.prems(2) have "j' < length later" by simp
    from Cons.IH[OF rest this] Suc show ?thesis by simp
  qed
qed

lemma pick_conflicts_False:
  "pick_conflicts C keys = Inr False \<Longrightarrow> i < j \<Longrightarrow> j < length keys \<Longrightarrow>
     \<exists>si sj. index_schedule C (keys ! i) = Inr si \<and> index_schedule C (keys ! j) = Inr sj \<and>
             schedules_conflict si sj = Inr False"
proof (induction keys arbitrary: i j)
  case Nil
  then show ?case by simp
next
  case (Cons k keys)
  from Cons.prems(1) have now: "conflicts_with_later C k keys = Inr False"
    and rest: "pick_conflicts C keys = Inr False"
    by (auto split: sum.splits bool.splits)
  from Cons.prems(2) obtain j' where j: "j = Suc j'" by (cases j) auto
  with Cons.prems(3) have j': "j' < length keys" by simp
  show ?case
  proof (cases i)
    case 0
    from conflicts_with_later_False[OF now j'] 0 j show ?thesis by simp
  next
    case (Suc i')
    with Cons.prems(2) j have "i' < j'" by simp
    from Cons.IH[OF rest this j'] Suc j show ?thesis by simp
  qed
qed

lemma pick_conflicts_False_any:
  assumes "pick_conflicts C keys = Inr False" and "i \<noteq> j"
    and "i < length keys" and "j < length keys"
  shows "\<exists>si sj. index_schedule C (keys ! i) = Inr si \<and> index_schedule C (keys ! j) = Inr sj \<and>
             schedules_conflict si sj = Inr False"
proof (cases "i < j")
  case True
  from pick_conflicts_False[OF assms(1) True assms(4)] show ?thesis .
next
  case False
  with assms(2) have "j < i" by simp
  from pick_conflicts_False[OF assms(1) this assms(3)] obtain sj si where
    "index_schedule C (keys ! j) = Inr sj" "index_schedule C (keys ! i) = Inr si"
    "schedules_conflict sj si = Inr False" by blast
  then show ?thesis using schedules_conflict_False_sym by blast
qed

lemma score_pick_Some:
  "score_pick C keys = Inr (Some c) \<Longrightarrow> combo_courses c = keys \<and> pick_conflicts C keys = Inr False"
  by (auto simp: score_pick_def split: sum.splits bool.splits)

lemma collect_combos_mem:
  "collect_combos C acc picks = Inr combos \<Longrightarrow> c \<in> set combos \<Longrightarrow>
     c \<in> set acc \<or> (\<exists>pick\<in>set picks. score_pick C pick = Inr (Some c))"
proof (induction picks arbitrary: acc)
  case Nil
  then show ?case by simp
next
  case (Cons pick picks)
  show ?case
  proof (cases "score_pick C pick")
    case (Inl e)
    with Cons.prems show ?thesis by simp
  next
    case (Inr r)
    show ?thesis
    proof (cases r)
      case None
      with Inr Cons show ?thesis by fastforce
    next
      case (Some c')
      with Inr Cons.prems have "collect_combos C (acc @ [c']) picks = Inr combos" by simp
      from Cons.IH[OF this Cons.prems(2)] Inr Some show ?thesis by auto
    qed
  qed
qed

lemma generated_combo_unconflicting:
  assumes "generate_best_combinations_for_groups C group_keys = Inr combos" and "c \<in> set combos"
  shows "pick_conflicts C (combo_courses c) = Inr False"
proof -
  from assms obtain groups all_combos where
    "collect_combos C [] (product_lists groups) = Inr all_combos"
    and "combos = sort_key combo_sort_key all_combos"
    by (auto simp: generate_best_combinations_for_groups_def split: option.splits sum.splits)
  with assms(2) obtain pick where "score_pick C pick = Inr (Some c)"
    using collect_combos_mem[of C "[]" "product_lists groups" all_combos c] by auto
  then show ?thesis using score_pick_Some by blast
qed

lemma conflicts_with_later_total:
  assumes "catalog_ok C" and "ki \<in> fst ` set C"
  shows "set later \<subseteq> fst ` set C \<Longrightarrow> conflicts_with_later C ki later \<noteq> Inl e"
proof (induction later)
  case Nil
  show ?case by simp
next
  case (Cons kj later)
  from index_schedule_ok[OF assms] obtain si where
    si: "index_schedule C ki = Inr si" "\<forall>s\<in>set si. times_ok s" by blast
  from Cons.prems have "kj \<in> fst ` set C" by simp
  from index_schedule_ok[OF assms(1) this] obtain sj where
    sj: "index_schedule C kj = Inr sj" "\<forall>s\<in>set sj. times_ok s" by blast
  have "schedules_conflict si sj \<noteq> Inl e" for e
    using schedules_conflict_total[OF si(2) sj(2)] .
  then obtain r where "schedules_conflict si sj = Inr r"
    by (cases "schedules_conflict si sj") auto
  with si sj Cons show ?case by (cases r) simp_all
qed

lemma pick_conflicts_total:
  assumes "catalog_ok C"
  shows "set keys \<subseteq> fst ` set C \<Longrightarrow> pick_conflicts C keys \<noteq> Inl e"
proof (induction keys)
  case Nil
  show ?case by simp
next
  case (Cons k keys)
  then have "conflicts_with_later C k keys \<noteq> Inl e" for e
    using conflicts_with_later_total[OF assms, of k keys e] by simp
  then obtain r where "conflicts_with_later C k keys = Inr r"
    by (cases "conflicts_with_later C k keys") auto
  with Cons show ?case by (cases r) simp_all
qed

lemma combo_sessions_total:
  assumes "catalog_ok C"
  shows "set keys \<subseteq> fst ` set C \<Longrightarrow> combo_sessions C keys \<noteq> Inl e"
proof (induction keys)
  case Nil
  show ?case by simp
next
  case (Cons k keys)
  then have "k \<in> fst ` set C" by simp
  from index_schedule_ok[OF assms this] obtain sch where "index_schedule C k = Inr sch" by blast
  with Cons show ?case by (cases "combo_sessions C keys") simp_all
qed

lemma daily_add_items_total:
  "\<forall>s\<in>set items. times_ok s \<Longrightarrow> daily_add_items daily items \<noteq> Inl e"
proof (induction items arbitrary: daily)
  case Nil
  show ?case by simp
next
  case (Cons item items)
  then obtain s t where "to_minutes (sess_start item) = Inr s" "to_minutes (sess_end item) = Inr t"
    by (auto simp: times_ok_def parses_iff)
  with Cons show ?case by simp
qed

lemma daily_collect_total:
  assumes "catalog_ok C"
  shows "set keys \<subseteq> fst ` set C \<Longrightarrow> daily_collect C daily keys \<noteq> Inl e"
proof (induction keys arbitrary: daily)
  case Nil
  show ?case by simp
next
  case (Cons k keys)
  then have "k \<in> fst ` set C" by simp
  from index_schedule_ok[OF assms this] obtain sch where
    sch: "index_schedule C k = Inr sch" "\<forall>s\<in>set sch. times_ok s" by blast
  have "daily_add_items daily sch \<noteq> Inl e" for e
    using daily_add_items_total[OF sch(2)] .
  then obtain d' where "daily_add_items daily sch = Inr d'"
    by (cases "daily_add_items daily sch") auto
  with sch Cons show ?case by simp
qed

lemma score_pick_total:
  assumes "catalog_ok C" and "set keys \<subseteq> fst ` set C"
  shows "score_pick C keys \<noteq> Inl e"
proof -
  obtain r where r: "pick_conflicts C keys = Inr r"
    using pick_conflicts_total[OF assms] by (cases "pick_conflicts C keys") auto
  obtain items where i: "combo_sessions C keys = Inr items"
    using combo_sessions_total[OF assms] by (cases "combo_sessions C keys") auto
  obtain daily where d: "daily_collect C [] keys = Inr daily"
    using daily_collect_total[OF assms] by (cases "daily_collect C [] keys") auto
  from r i d show ?thesis
    by (cases r)
      (simp_all add: score_pick_def calculate_days_needed_for_combo_def
        calculate_empty_time_for_combo_def)
qed

lemma collect_combos_total:
  assumes "catalog_ok C"
  shows "\<forall>pick\<in>set picks. set pick \<subseteq> fst ` set C \<Longrightarrow> collect_combos C acc picks \<noteq> Inl e"
proof (induction picks arbitrary: acc)
  case Nil
  show ?case by simp
next
  case (Cons pick picks)
  then have "score_pick C pick \<noteq> Inl e" for e
    using score_pick_total[OF assms, of pick e] by simp
  then obtain r where "score_pick C pick = Inr r"
    by (cases "score_pick C pick") auto
  with Cons show ?case by (cases r) simp_all
qed

lemma group_candidates_keys: "set (group_candidates C g) \<subseteq> fst ` set C"
  by (auto simp: group_candidates_def Let_def intro: rev_image_eqI)

lemma build_groups_keys:
  "build_groups C gs = Some groups \<Longrightarrow> \<forall>g\<in>set groups. set g \<subseteq> fst ` set C"
proof (induction gs arbitrary: groups)
  case Nil
  then show ?case by simp
next
  case (Cons g gs)
  from Cons.prems obtain rest where rest: "build_groups C gs = Some rest"
    and g: "groups = group_candidates C g # rest"
    by (auto simp: Let_def split: if_splits option.splits)
  from Cons.IH[OF rest] g group_candidates_keys[of C g] show ?case by simp
qed

lemma product_lists_members:
  "pick \<in> set (product_lists groups) \<Longrightarrow> \<forall>g\<in>set groups. set g \<subseteq> A \<Longrightarrow> set pick \<subseteq> A"
proof (induction groups arbitrary: pick)
  case Nil
  then show ?case by simp
next
  case (Cons g groups)
  from Cons.prems(1) obtain x rest where "pick = x # rest" "x \<in> set g"
    "rest \<in> set (product_lists groups)" by auto
  moreover from Cons.prems(2) have "set g \<subseteq> A" "\<forall>g\<in>set groups. set g \<subseteq> A" by simp_all
  ultimately show ?case using Cons.IH[of rest] by auto
qed

lemma generate_total:
  assumes "catalog_ok C"
  shows "\<exists>combos. generate_best_combinations_for_groups C group_keys = Inr combos"
proof (cases "build_groups C group_keys")
  case None
  then show ?thesis by (simp add: generate_best_combinations_for_groups_def)
next
  case (Some groups)
  have keys: "\<forall>g\<in>set groups. set g \<subseteq> fst ` set C"
    using build_groups_keys[OF Some] .
  have picks: "\<forall>pick\<in>set (product_lists groups). set pick \<subseteq> fst ` set C"
  proof
    fix pick
    assume "pick \<in> set (product_lists groups)"
    from product_lists_members[OF this keys] show "set pick \<subseteq> fst ` set C" .
  qed
  have "collect_combos C [] (product_lists groups) \<noteq> Inl e" for e
    using collect_combos_total[OF assms picks] .
  then obtain combos where "collect_combos C [] (product_lists groups) = Inr combos"
    by (cases "collect_combos C [] (product_lists groups)") auto
  with Some show ?thesis by (simp add: generate_best_combinations_for_groups_def)
qed

lemma demo_generate:
  "generate_best_combinations_for_groups demo_catalog [''A'', ''B''] =
     Inr [\<lparr>combo_courses = [''A2'', ''B1''], combo_days = 2, combo_empty = 1, combo_score = 5 / 2\<rparr>]"
  by code_simp

lemma demo_catalog_ok: "catalog_ok demo_catalog"
  by code_simp

text \<open>
  Claim C4. Every combination returned by the generator is pairwise conflict-free: for any
  two different positions of its course list, the schedules of the two courses are in the
  catalog and the conflict check on them returns false. The generator does return on a
  catalog whose courses all have a schedule with time strings that convert.
\<close>

theorem combinations_pairwise_conflict_free:
  "(generate_best_combinations_for_groups C group_keys = Inr combos \<and> c \<in> set combos \<and>
    i < length (combo_courses c) \<and> j < length (combo_courses c) \<and> i \<noteq> j \<longrightarrow>
      (\<exists>si sj. index_schedule C (combo_courses c ! i) = Inr si \<and>
               index_schedule C (combo_courses c ! j) = Inr sj \<and>
               schedules_conflict si sj = Inr False)) \<and>
   (catalog_ok C \<longrightarrow> (\<exists>combos. generate_best_combinations_for_groups C group_keys = Inr combos))"
proof (intro conjI impI)
  assume a: "generate_best_combinations_for_groups C group_keys = Inr combos \<and> c \<in> set combos \<and>
    i < length (combo_courses c) \<and> j < length (combo_courses c) \<and> i \<noteq> j"
  then have g: "generate_best_combinations_for_groups C group_keys = Inr combos"
    and c: "c \<in> set combos" and i: "i < length (combo_courses c)"
    and j: "j < length (combo_courses c)" and ij: "i \<noteq> j" by simp_all
  have "pick_conflicts C (combo_courses c) = Inr False"
    using generated_combo_unconflicting[OF g c] .
  from pick_conflicts_False_any[OF this ij i j]
  show "\<exists>si sj. index_schedule C (combo_courses c ! i) = Inr si \<and>
               index_schedule C (combo_courses c ! j) = Inr sj \<and>
               schedules_conflict si sj = Inr False" .
next
  assume "catalog_ok C"
  then show "\<exists>combos. generate_best_combinations_for_groups C group_keys = Inr combos"
    by (rule generate_total)
qed

theorem combinations_pairwise_conflict_free_witness:
  "generate_best_combinations_for_groups demo_catalog [''A'', ''B''] =
     Inr [\<lparr>combo_courses = [''A2'', ''B1''], combo_days = 2, combo_empty = 1, combo_score = 5 / 2\<rparr>] \<and>
   catalog_ok demo_catalog \<and>
   (\<exists>si sj. index_schedule demo_catalog ''A2'' = Inr si \<and>
            index_schedule demo_catalog ''B1'' = Inr sj \<and> schedules_conflict si sj = Inr False)"
  using combinations_pairwise_conflict_free[of demo_catalog "[''A'', ''B'']"
      "[\<lparr>combo_courses = [''A2'', ''B1''], combo_days = 2, combo_empty = 1, combo_score = 5 / 2\<rparr>]"
      "\<lparr>combo_courses = [''A2'', ''B1''], combo_days = 2, combo_empty = 1, combo_score = 5 / 2\<rparr>"
      0 1] demo_generate demo_catalog_ok
  by simp

lemma build_groups_None:
  "g \<in> set group_keys \<Longrightarrow> group_candidates C g = [] \<Longrightarrow> build_groups C group_keys = None"
  by (induction group_keys) (auto simp: Let_def split: option.splits)

lemma demo_no_candidates: "group_candidates demo_catalog ''Z'' = []"
  by code_simp

text \<open>
  Claim C6, as stated, fails: on the empty list of groups the generator returns a list of
  one combination (the empty pick), not the empty list.
\<close>

theorem empty_group_list_counterexample:
  "generate_best_combinations_for_groups demo_catalog [] =
     Inr [\<lparr>combo_courses = [], combo_days = 0, combo_empty = 0, combo_score = 0\<rparr>] \<and>
   generate_best_combinations_for_groups demo_catalog [] \<noteq> Inr []"
  by (simp add: generate_best_combinations_for_groups_def score_pick_def
        calculate_days_needed_for_combo_def calculate_empty_time_for_combo_def)

text \<open>
  Claim C6, amended. On the empty list of groups the generator returns, without error,
  exactly one combination, which has no course, 0 days, idle time 0 and score 0. A group
  without candidates makes the whole result empty.
\<close>

theorem degenerate_groups:
  "generate_best_combinations_for_groups C [] =
     Inr [\<lparr>combo_courses = [], combo_days = 0, combo_empty = 0, combo_score = 0\<rparr>] \<and>
   (g \<in> set group_keys \<and> group_candidates C g = [] \<longrightarrow>
      generate_best_combinations_for_groups C group_keys = Inr [])"
  using build_groups_None[of g group_keys C]
  by (auto simp: generate_best_combinations_for_groups_def score_pick_def
        calculate_days_needed_for_combo_def calculate_empty_time_for_combo_def)

theorem degenerate_groups_witness:
  "''Z'' \<in> set [''A'', ''Z''] \<and> group_candidates demo_catalog ''Z'' = [] \<and>
   generate_best_combinations_for_groups demo_catalog [''A'', ''Z''] = Inr []"
  using degenerate_groups[of demo_catalog "''Z''" "[''A'', ''Z'']"] demo_no_candidates
  by simp

subsection \<open>The gap penalty and the score\<close>


















section \<open>Properties of the removal of a course\<close>

lemma evolves_refl: "evolves k st st"
  by (auto simp: evolves_def split: option.splits)

lemma evolves_trans:
  assumes "evolves k a b" and "evolves k b c"
  shows "evolves k a c"
  unfolding evolves_def
proof
  fix p
  from assms(1) have ab: "case map_of (placed a) p of
            None \<Rightarrow> map_of (placed b) p = None
          | Some i \<Rightarrow>
              map_of (placed b) p = Some i \<or>
              (occupies k i \<and>
               (map_of (placed b) p = None \<or>
                (is_dual i \<and>
                 (\<exists>w. map_of (placed b) p =
                        Some (Single_info (get_other_course_key (info_widget i) k) (info_rows i) w)))))"
    unfolding evolves_def by blast
  from assms(2) have bc: "case map_of (placed b) p of
            None \<Rightarrow> map_of (placed c) p = None
          | Some i \<Rightarrow>
              map_of (placed c) p = Some i \<or>
              (occupies k i \<and>
               (map_of (placed c) p = None \<or>
                (is_dual i \<and>
                 (\<exists>w. map_of (placed c) p =
                        Some (Single_info (get_other_course_key (info_widget i) k) (info_rows i) w)))))"
    unfolding evolves_def by blast
  show "case map_of (placed a) p of
            None \<Rightarrow> map_of (placed c) p = None
          | Some i \<Rightarrow>
              map_of (placed c) p = Some i \<or>
              (occupies k i \<and>
               (map_of (placed c) p = None \<or>
                (is_dual i \<and>
                 (\<exists>w. map_of (placed c) p =
                        Some (Single_info (get_other_course_key (info_widget i) k) (info_rows i) w)))))"
  proof (cases "map_of (placed a) p")
    case None
    with ab bc show ?thesis by simp
  next
    case (Some i)
    with ab consider "map_of (placed b) p = Some i"
      | "occupies k i" "map_of (placed b) p = None"
      | w where "occupies k i" "is_dual i" "map_of (placed b) p =
                        Some (Single_info (get_other_course_key (info_widget i) k) (info_rows i) w)"
      by auto
    then show ?thesis
    proof cases
      case 1
      with bc Some show ?thesis by simp
    next
      case 2
      with bc Some show ?thesis by simp
    next
      case 3
      with bc Some show ?thesis by (auto simp: is_dual_def)
    qed
  qed
qed

lemma step_ok_refl: "distinct (map fst (placed st)) \<Longrightarrow> step_ok k st st"
  by (simp add: step_ok_def evolves_refl)

lemma step_ok_trans: "step_ok k a b \<Longrightarrow> step_ok k b c \<Longrightarrow> step_ok k a c"
  unfolding step_ok_def using evolves_trans by auto

lemma filter_delete_le:
  "length (filter P (AList.delete p xs)) \<le> length (filter P xs)"
  by (induction xs) auto

lemma filter_delete_less:
  "(p, i) \<in> set xs \<Longrightarrow> P (p, i) \<Longrightarrow> length (filter P (AList.delete p xs)) < length (filter P xs)"
proof (induction xs)
  case Nil
  then show ?case by simp
next
  case (Cons x xs)
  show ?case
  proof (cases "x = (p, i)")
    case True
    with Cons.prems filter_delete_le[of P p xs] show ?thesis by (simp add: le_imp_less_Suc)
  next
    case False
    with Cons show ?thesis by auto
  qed
qed

lemma remove_placed_by_start_step:
  assumes d: "distinct (map fst (placed st))"
    and occ: "\<exists>i. map_of (placed st0) p = Some i \<and> occupies k i"
    and ev: "evolves k st0 st"
  shows "distinct (map fst (placed (remove_placed_by_start p st))) \<and>
         ndual (remove_placed_by_start p st) \<le> ndual st \<and>
         evolves k st0 (remove_placed_by_start p st) \<and>
         map_of (placed (remove_placed_by_start p st)) p = None"
proof (cases "map_of (placed st) p")
  case None
  with d ev show ?thesis by (simp add: remove_placed_by_start_def)
next
  case (Some j)
  have pl: "placed (remove_placed_by_start p st) = AList.delete p (placed st)"
    using Some by (simp add: remove_placed_by_start_def)
  have "evolves k st0 (remove_placed_by_start p st)"
    unfolding evolves_def
  proof
    fix q
    from ev have h: "case map_of (placed st0) q of
            None \<Rightarrow> map_of (placed st) q = None
          | Some i \<Rightarrow>
              map_of (placed st) q = Some i \<or>
              (occupies k i \<and>
               (map_of (placed st) q = None \<or>
                (is_dual i \<and>
                 (\<exists>w. map_of (placed st) q =
                        Some (Single_info (get_other_course_key (info_widget i) k) (info_rows i) w)))))"
      unfolding evolves_def by blast
    show "case map_of (placed st0) q of
            None \<Rightarrow> map_of (placed (remove_placed_by_start p st)) q = None
          | Some i \<Rightarrow>
              map_of (placed (remove_placed_by_start p st)) q = Some i \<or>
              (occupies k i \<and>
               (map_of (placed (remove_placed_by_start p st)) q = None \<or>
                (is_dual i \<and>
                 (\<exists>w. map_of (placed (remove_placed_by_start p st)) q =
                        Some (Single_info (get_other_course_key (info_widget i) k) (info_rows i) w)))))"
    proof (cases "q = p")
      case True
      with occ pl show ?thesis by (auto simp: delete_conv')
    next
      case False
      with h pl show ?thesis by (simp add: delete_conv' split: option.splits)
    qed
  qed
  moreover have "distinct (map fst (placed (remove_placed_by_start p st)))"
    using d pl by (simp add: distinct_delete)
  moreover have "ndual (remove_placed_by_start p st) \<le> ndual st"
    using pl by (simp add: ndual_def filter_delete_le)
  moreover have "map_of (placed (remove_placed_by_start p st)) p = None"
    using pl by (simp add: delete_conv')
  ultimately show ?thesis by simp
qed

lemma remove_all_keeps_None:
  "map_of (placed s) p = None \<Longrightarrow> map_of (placed (remove_all ps s)) p = None"
proof (induction ps arbitrary: s)
  case Nil
  then show ?case by simp
next
  case (Cons q qs)
  have "map_of (placed (remove_placed_by_start q s)) p = None"
    using Cons.prems by (auto simp: remove_placed_by_start_def delete_conv' split: option.splits)
  from Cons.IH[OF this] show ?case by simp
qed

lemma remove_all_step:
  assumes "distinct (map fst (placed st))"
    and "\<forall>p\<in>set ps. \<exists>i. map_of (placed st0) p = Some i \<and> occupies k i"
    and "evolves k st0 st"
  shows "distinct (map fst (placed (remove_all ps st))) \<and>
         ndual (remove_all ps st) \<le> ndual st \<and>
         evolves k st0 (remove_all ps st) \<and>
         (\<forall>p\<in>set ps. map_of (placed (remove_all ps st)) p = None)"
  using assms
proof (induction ps arbitrary: st)
  case Nil
  then show ?case by simp
next
  case (Cons p ps)
  let ?s = "remove_placed_by_start p st"
  from Cons.prems(2) have occ: "\<exists>i. map_of (placed st0) p = Some i \<and> occupies k i" by simp
  from remove_placed_by_start_step[OF Cons.prems(1) occ Cons.prems(3)]
  have d: "distinct (map fst (placed ?s))" and n: "ndual ?s \<le> ndual st"
    and e: "evolves k st0 ?s" and gone: "map_of (placed ?s) p = None" by simp_all
  from Cons.prems(2) have rest: "\<forall>p\<in>set ps. \<exists>i. map_of (placed st0) p = Some i \<and> occupies k i"
    by simp
  from Cons.IH[OF d rest e]
  have d': "distinct (map fst (placed (remove_all ps ?s)))"
    and n': "ndual (remove_all ps ?s) \<le> ndual ?s"
    and e': "evolves k st0 (remove_all ps ?s)"
    and g': "\<forall>p\<in>set ps. map_of (placed (remove_all ps ?s)) p = None" by simp_all
  have "map_of (placed (remove_all ps ?s)) p = None"
    using gone by (rule remove_all_keeps_None)
  with d' n' n e' g' show ?case by simp
qed

lemma evolves_dual:
  assumes "evolves k a b" and "map_of (placed b) p = Some j" and "is_dual j"
  shows "map_of (placed a) p = Some j"
proof -
  from assms(1) have h: "case map_of (placed a) p of
            None \<Rightarrow> map_of (placed b) p = None
          | Some i \<Rightarrow>
              map_of (placed b) p = Some i \<or>
              (occupies k i \<and>
               (map_of (placed b) p = None \<or>
                (is_dual i \<and>
                 (\<exists>w. map_of (placed b) p =
                        Some (Single_info (get_other_course_key (info_widget i) k) (info_rows i) w)))))"
    unfolding evolves_def by blast
  show ?thesis
  proof (cases "map_of (placed a) p")
    case None
    with h assms(2) show ?thesis by simp
  next
    case (Some i)
    with h assms(2) assms(3) show ?thesis by (auto simp: is_dual_def)
  qed
qed

lemma dual_unique_evolves:
  assumes "evolves k a b" and "dual_unique a"
  shows "dual_unique b"
  unfolding dual_unique_def
proof (intro allI impI)
  fix p q i j
  assume h: "map_of (placed b) p = Some i \<and> map_of (placed b) q = Some j \<and>
                is_dual i \<and> is_dual j \<and> info_widget i = info_widget j"
  then have "map_of (placed a) p = Some i" "map_of (placed a) q = Some j"
    using evolves_dual[OF assms(1)] by blast+
  with h assms(2) show "p = q" unfolding dual_unique_def by blast
qed

lemma no_dual_with_evolves:
  assumes "evolves k a b" and "no_dual_with w a"
  shows "no_dual_with w b"
  unfolding no_dual_with_def
proof (intro allI impI)
  fix q j
  assume h: "map_of (placed b) q = Some j \<and> is_dual j"
  then have "map_of (placed a) q = Some j" using evolves_dual[OF assms(1)] by blast
  with h assms(2) show "info_widget j \<noteq> w" unfolding no_dual_with_def by blast
qed

lemma store_ok_dual_unique:
  assumes "store_ok st"
  shows "dual_unique st"
  unfolding dual_unique_def
proof (intro allI impI)
  fix p q i j
  assume h: "map_of (placed st) p = Some i \<and> map_of (placed st) q = Some j \<and>
                is_dual i \<and> is_dual j \<and> info_widget i = info_widget j"
  let ?f = "\<lambda>(p, i). info_widget i"
  let ?xs = "filter (\<lambda>(p, i). is_dual i) (placed st)"
  from assms have "distinct (map ?f ?xs)" by (simp add: store_ok_def)
  then have inj: "inj_on ?f (set ?xs)" by (simp add: distinct_map)
  from h have mem: "(p, i) \<in> set ?xs" "(q, j) \<in> set ?xs"
    by (auto dest: map_of_SomeD)
  from h have eq: "?f (p, i) = ?f (q, j)" by simp
  from inj_onD[OF inj eq mem] show "p = q" by simp
qed

lemma widget_has_occupies:
  "is_dual i \<Longrightarrow> widget_has k (info_widget i) = occupies k i"
  by (cases i) (auto simp: widget_has_def info_widget_def occupies_def is_dual_def)

lemma filter_update_single_le:
  "\<not> P (p, v) \<Longrightarrow> length (filter P (AList.update p v xs)) \<le> length (filter P xs)"
  by (induction xs) auto

lemma removal_scan_convert:
  "(p, w) \<in> set (fst (removal_scan items k ex rest)) \<Longrightarrow>
     \<exists>i. (p, i) \<in> set rest \<and> is_dual i \<and> occupies k i \<and> w = info_widget i"
proof (induction rest)
  case Nil
  then show ?case by simp
next
  case (Cons e rest)
  obtain q j where e: "e = (q, j)" by (cases e)
  obtain tc tr where r: "removal_scan items k ex rest = (tc, tr)"
    by (cases "removal_scan items k ex rest")
  from Cons.prems e r consider "(p, w) \<in> set tc"
    | "p = q" "w = info_widget j" "is_dual j" "occupies k j"
    by (auto split: if_splits)
  then show ?case
  proof cases
    case 1
    with Cons.IH r e show ?thesis by auto
  next
    case 2
    with e show ?thesis by auto
  qed
qed

lemma removal_scan_remove:
  "p \<in> set (snd (removal_scan items k ex rest)) \<Longrightarrow>
     \<exists>i. (p, i) \<in> set rest \<and> occupies k i"
proof (induction rest)
  case Nil
  then show ?case by simp
next
  case (Cons e rest)
  obtain q j where e: "e = (q, j)" by (cases e)
  obtain tc tr where r: "removal_scan items k ex rest = (tc, tr)"
    by (cases "removal_scan items k ex rest")
  from Cons.prems e r consider "p \<in> set tr" | "p = q" "occupies k j"
    by (auto split: if_splits)
  then show ?case
  proof cases
    case 1
    with Cons.IH r e show ?thesis by auto
  next
    case 2
    with e show ?thesis by auto
  qed
qed

lemma removal_scan_covers:
  "(p, i) \<in> set rest \<Longrightarrow> occupies k i \<Longrightarrow> p \<notin> set ex \<Longrightarrow>
     (if is_dual i \<and> has_other_sessions items (get_other_course_key (info_widget i) k) (ex @ [p])
      then (p, info_widget i) \<in> set (fst (removal_scan items k ex rest))
      else p \<in> set (snd (removal_scan items k ex rest)))"
proof (induction rest)
  case Nil
  then show ?case by simp
next
  case (Cons e rest)
  obtain q j where e: "e = (q, j)" by (cases e)
  obtain tc tr where r: "removal_scan items k ex rest = (tc, tr)"
    by (cases "removal_scan items k ex rest")
  show ?case
  proof (cases "e = (p, i)")
    case True
    with e r Cons.prems show ?thesis by auto
  next
    case False
    with Cons.prems have "(p, i) \<in> set rest" by simp
    from Cons.IH[OF this Cons.prems(2) Cons.prems(3)] r e show ?thesis
      by (auto split: if_splits)
  qed
qed

lemma convert_all_ok:
  assumes conv: "conv_ok n k conv"
  shows "\<forall>(p, w)\<in>set tc. widget_has k w \<Longrightarrow> distinct (map fst (placed st)) \<Longrightarrow>
         dual_unique st \<Longrightarrow> ndual st < n \<Longrightarrow>
         \<exists>sc. convert_all conv tc st = Some sc \<and> step_ok k st sc \<and>
              (\<forall>(p, w)\<in>set tc. no_dual_with w sc)"
proof (induction tc arbitrary: st)
  case Nil
  then show ?case by (simp add: step_ok_refl)
next
  case (Cons e tc)
  obtain p w where e: "e = (p, w)" by (cases e)
  with Cons.prems(1) have w: "widget_has k w" and rest: "\<forall>(p, w)\<in>set tc. widget_has k w"
    by simp_all
  from conv Cons.prems(2,3,4) w obtain s1 where s1: "conv w st = Some s1"
    and ok1: "step_ok k st s1" and nd1: "no_dual_with w s1"
    unfolding conv_ok_def by blast
  from ok1 have d1: "distinct (map fst (placed s1))" and n1: "ndual s1 \<le> ndual st"
    and e1: "evolves k st s1" by (simp_all add: step_ok_def)
  have u1: "dual_unique s1" using dual_unique_evolves[OF e1 Cons.prems(3)] .
  from n1 Cons.prems(4) have l1: "ndual s1 < n" by simp
  from Cons.IH[OF rest d1 u1 l1] obtain sc where sc: "convert_all conv tc s1 = Some sc"
    and ok2: "step_ok k s1 sc" and nd2: "\<forall>(p, w)\<in>set tc. no_dual_with w sc" by blast
  from ok2 have e2: "evolves k s1 sc" by (simp add: step_ok_def)
  have "no_dual_with w sc" using no_dual_with_evolves[OF e2 nd1] .
  with e s1 sc nd2 step_ok_trans[OF ok1 ok2] show ?case by simp
qed

lemma remove_all_sub:
  "map_of (placed (remove_all ps s)) q = Some j \<Longrightarrow> map_of (placed s) q = Some j"
proof (induction ps arbitrary: s)
  case Nil
  then show ?case by simp
next
  case (Cons p ps)
  from Cons.IH[of "remove_placed_by_start p s"] Cons.prems
  have "map_of (placed (remove_placed_by_start p s)) q = Some j" by simp
  then show ?case
    by (auto simp: remove_placed_by_start_def delete_conv' split: option.splits if_splits)
qed

lemma no_dual_with_remove_all:
  "no_dual_with w s \<Longrightarrow> no_dual_with w (remove_all ps s)"
  unfolding no_dual_with_def using remove_all_sub by blast

lemma scan_convert_remove:
  assumes conv: "conv_ok n k conv"
    and d: "distinct (map fst (placed st))" and u: "dual_unique st" and l: "ndual st < n"
    and scan: "removal_scan (placed st) k ex (placed st) = (tc, tr)"
  shows "\<exists>sc. convert_all conv tc st = Some sc \<and> step_ok k st (remove_all tr sc) \<and>
           (\<forall>p\<in>set tr. map_of (placed (remove_all tr sc)) p = None) \<and>
           (\<forall>(p, w)\<in>set tc. no_dual_with w (remove_all tr sc))"
proof -
  have tcw: "\<forall>(p, w)\<in>set tc. widget_has k w"
  proof (clarify)
    fix p w
    assume "(p, w) \<in> set tc"
    with scan have "(p, w) \<in> set (fst (removal_scan (placed st) k ex (placed st)))" by simp
    from removal_scan_convert[OF this] show "widget_has k w"
      using widget_has_occupies by auto
  qed
  have tro: "\<forall>p\<in>set tr. \<exists>i. map_of (placed st) p = Some i \<and> occupies k i"
  proof
    fix p
    assume "p \<in> set tr"
    with scan have "p \<in> set (snd (removal_scan (placed st) k ex (placed st)))" by simp
    from removal_scan_remove[OF this] d show "\<exists>i. map_of (placed st) p = Some i \<and> occupies k i"
      by auto
  qed
  from convert_all_ok[OF conv tcw d u l] obtain sc where sc: "convert_all conv tc st = Some sc"
    and ok: "step_ok k st sc" and nd: "\<forall>(p, w)\<in>set tc. no_dual_with w sc" by blast
  from ok have dc: "distinct (map fst (placed sc))" and nc: "ndual sc \<le> ndual st"
    and ec: "evolves k st sc" by (simp_all add: step_ok_def)
  from remove_all_step[OF dc tro ec]
  have df: "distinct (map fst (placed (remove_all tr sc)))"
    and nf: "ndual (remove_all tr sc) \<le> ndual sc"
    and ef: "evolves k st (remove_all tr sc)"
    and gf: "\<forall>p\<in>set tr. map_of (placed (remove_all tr sc)) p = None" by simp_all
  have okf: "step_ok k st (remove_all tr sc)"
    using df nf nc ef by (simp add: step_ok_def)
  have "\<forall>(p, w)\<in>set tc. no_dual_with w (remove_all tr sc)"
  proof (clarify)
    fix p w
    assume "(p, w) \<in> set tc"
    with nd have "no_dual_with w sc" by auto
    then show "no_dual_with w (remove_all tr sc)" by (rule no_dual_with_remove_all)
  qed
  with sc okf gf show ?thesis by simp
qed

lemma find_entry:
  assumes "find P xs = Some (p, i)" and "distinct (map fst xs)"
  shows "map_of xs p = Some i \<and> P (p, i)"
proof -
  from assms(1) have "(p, i) \<in> set xs" "P (p, i)"
    by (auto simp: find_Some_iff in_set_conv_nth)
  with assms(2) show ?thesis by simp
qed

lemma rm_dual_ok: "conv_ok n k (remove_course_from_dual_widget n E k)"
proof (induction n)
  case 0
  show ?case by (simp add: conv_ok_def)
next
  case (Suc n)
  show ?case
    unfolding conv_ok_def
  proof (intro allI impI)
    fix st w
    assume h: "distinct (map fst (placed st)) \<and> dual_unique st \<and> ndual st < Suc n \<and> widget_has k w"
    then have d: "distinct (map fst (placed st))" and u: "dual_unique st"
      and l: "ndual st < Suc n" and wk: "widget_has k w" by simp_all
    let ?P = "\<lambda>(p, i). info_widget i = w \<and> is_dual i"
    show "\<exists>st'. remove_course_from_dual_widget (Suc n) E k w st = Some st' \<and>
               step_ok k st st' \<and> no_dual_with w st'"
    proof (cases "find ?P (placed st)")
      case None
      then have "no_dual_with w st"
        by (auto simp: no_dual_with_def find_None_iff dest: map_of_SomeD)
      with None d show ?thesis by (simp add: step_ok_refl)
    next
      case (Some e)
      obtain pos i where e: "e = (pos, i)" by (cases e)
      from find_entry[OF Some[unfolded e] d]
      have mi: "map_of (placed st) pos = Some i" and wi: "info_widget i = w" and di: "is_dual i"
        by simp_all
      from wk wi di have occ: "occupies k i" using widget_has_occupies by blast
      let ?other = "get_other_course_key w k"
      let ?st1 = "st\<lparr>table := AList.delete pos (table st),
                       placed := AList.delete pos (placed st)\<rparr>"
      have d1: "distinct (map fst (placed ?st1))" using d by (simp add: distinct_delete)
      have "(pos, i) \<in> set (placed st)" using mi by (rule map_of_SomeD)
      then have n1: "ndual ?st1 < ndual st"
        using di filter_delete_less[of pos i "placed st" "\<lambda>(p, i). is_dual i"]
        by (simp add: ndual_def)
      have nd1: "no_dual_with w ?st1"
        unfolding no_dual_with_def
      proof (intro allI impI)
        fix q j
        assume a: "map_of (placed ?st1) q = Some j \<and> is_dual j"
        then have qp: "q \<noteq> pos" and mj: "map_of (placed st) q = Some j"
          by (auto simp: delete_conv' split: if_splits)
        show "info_widget j \<noteq> w"
        proof
          assume "info_widget j = w"
          with u mi mj di a wi have "pos = q" unfolding dual_unique_def by blast
          with qp show False by simp
        qed
      qed
      have e1: "evolves k st ?st1"
        unfolding evolves_def
      proof
        fix q
        show "case map_of (placed st) q of
            None \<Rightarrow> map_of (placed ?st1) q = None
          | Some i \<Rightarrow>
              map_of (placed ?st1) q = Some i \<or>
              (occupies k i \<and>
               (map_of (placed ?st1) q = None \<or>
                (is_dual i \<and>
                 (\<exists>w. map_of (placed ?st1) q =
                        Some (Single_info (get_other_course_key (info_widget i) k) (info_rows i) w)))))"
          using mi occ by (cases "q = pos") (auto simp: delete_conv' split: option.splits)
      qed
      show ?thesis
      proof (cases "map_of (COURSES E) ?other = None")
        case True
        have "remove_course_from_dual_widget (Suc n) E k w st = Some ?st1"
          using Some e True by (simp add: Let_def)
        moreover have "step_ok k st ?st1" using d1 n1 e1 by (simp add: step_ok_def)
        ultimately show ?thesis using nd1 by blast
      next
        case False
        let ?st2 = "?st1\<lparr>table :=
                          AList.update pos (Course_widget (next_widget ?st1) ?other) (table ?st1),
                        placed :=
                          AList.update pos (Single_info ?other (info_rows i) (next_widget ?st1))
                            (placed ?st1),
                        next_widget := Suc (next_widget ?st1)\<rparr>"
        have call: "remove_course_from_dual_widget (Suc n) E k w st =
              remove_course_sessions_except_cell (remove_course_from_dual_widget n E k) k pos ?st2"
          using Some e False by (auto simp: Let_def)
        have d2: "distinct (map fst (placed ?st2))" using d1 by (simp add: distinct_update)
        have n2: "ndual ?st2 \<le> ndual ?st1"
          using filter_update_single_le[of "\<lambda>(p, i). is_dual i" pos
                  "Single_info ?other (info_rows i) (next_widget ?st1)" "placed ?st1"]
          by (simp add: ndual_def is_dual_def)
        have e2: "evolves k st ?st2"
          unfolding evolves_def
        proof
          fix q
          show "case map_of (placed st) q of
            None \<Rightarrow> map_of (placed ?st2) q = None
          | Some i \<Rightarrow>
              map_of (placed ?st2) q = Some i \<or>
              (occupies k i \<and>
               (map_of (placed ?st2) q = None \<or>
                (is_dual i \<and>
                 (\<exists>w. map_of (placed ?st2) q =
                        Some (Single_info (get_other_course_key (info_widget i) k) (info_rows i) w)))))"
            using mi occ di wi
            by (cases "q = pos") (auto simp: update_conv' delete_conv' split: option.splits)
        qed
        have nd2: "no_dual_with w ?st2"
          unfolding no_dual_with_def
        proof (intro allI impI)
          fix q j
          assume a: "map_of (placed ?st2) q = Some j \<and> is_dual j"
          then have "map_of (placed ?st1) q = Some j"
            by (auto simp: update_conv' is_dual_def split: if_splits)
          with nd1 a show "info_widget j \<noteq> w" unfolding no_dual_with_def by blast
        qed
        have ok2: "step_ok k st ?st2" using d2 n2 n1 e2 by (simp add: step_ok_def)
        have u2: "dual_unique ?st2" using dual_unique_evolves[OF e2 u] .
        from n2 n1 l have l2: "ndual ?st2 < n" by simp
        obtain tc tr where scan: "removal_scan (placed ?st2) k [pos] (placed ?st2) = (tc, tr)"
          by (cases "removal_scan (placed ?st2) k [pos] (placed ?st2)")
        from scan_convert_remove[OF Suc.IH d2 u2 l2 scan] obtain sc where
          sc: "convert_all (remove_course_from_dual_widget n E k) tc ?st2 = Some sc"
          and okf: "step_ok k ?st2 (remove_all tr sc)" by blast
        have res: "remove_course_from_dual_widget (Suc n) E k w st = Some (remove_all tr sc)"
          using call scan sc by (simp add: remove_course_sessions_except_cell_def)
        from okf have "evolves k ?st2 (remove_all tr sc)" by (simp add: step_ok_def)
        from no_dual_with_evolves[OF this nd2] have "no_dual_with w (remove_all tr sc)" .
        with res step_ok_trans[OF ok2 okf] show ?thesis by blast
      qed
    qed
  qed
qed

lemma dual_store_reached:
  "add_course_internal demo_env Yes empty_store ''O1'' True =
     Some (Placed, \<lparr>placed = [((2, 0), Single_info ''O1'' 4 0)],
                    table = [((2, 0), Course_widget 0 ''O1'')], next_widget = 1\<rparr>) \<and>
   add_course_internal demo_env Yes
     \<lparr>placed = [((2, 0), Single_info ''O1'' 4 0)],
      table = [((2, 0), Course_widget 0 ''O1'')], next_widget = 1\<rparr> ''V1'' True =
     Some (Placed, dual_store)"
  by code_simp

lemma mixed_store_ok: "store_ok mixed_store"
  by code_simp

lemma dual_store_ok: "store_ok dual_store"
  by code_simp

lemma dual_store_no_other: "\<not> has_other_sessions (placed dual_store) ''V1'' [(2, 0)]"
  by code_simp

lemma twin_store_reached:
  "add_course_internal twin_env Yes empty_store ''O2'' True =
     Some (Placed, \<lparr>placed = [((2, 0), Single_info ''O2'' 4 0), ((2, 1), Single_info ''O2'' 4 1)],
                    table = [((2, 0), Course_widget 0 ''O2''), ((2, 1), Course_widget 1 ''O2'')],
                    next_widget = 2\<rparr>) \<and>
   add_course_internal twin_env Yes
     \<lparr>placed = [((2, 0), Single_info ''O2'' 4 0), ((2, 1), Single_info ''O2'' 4 1)],
      table = [((2, 0), Course_widget 0 ''O2''), ((2, 1), Course_widget 1 ''O2'')],
      next_widget = 2\<rparr> ''V2'' True =
     Some (Placed, twin_store)"
  by code_simp

text \<open>
  What \<^verbatim>\<open>remove_course_from_schedule\<close> does on every store with distinct cells and distinct
  dual widgets: it returns; a single cell of the course is emptied; a cell that does not
  hold the course stays as it is; a dual cell that holds the course is emptied or becomes a
  single cell of the other course, and it is emptied whenever the other course occupies no
  other cell.
\<close>

lemma removal_effect:
  "store_ok st \<longrightarrow>
   (\<exists>st'. remove_course_from_schedule E k st = Some st' \<and>
     (\<forall>p. case map_of (placed st) p of
        None \<Rightarrow> map_of (placed st') p = None
      | Some (Single_info c r w) \<Rightarrow>
          map_of (placed st') p = (if c = k then None else Some (Single_info c r w))
      | Some (Dual_info odd_key even_key r w) \<Rightarrow>
          if k = odd_key \<or> k = even_key
          then (map_of (placed st') p = None \<or>
                (\<exists>w'. map_of (placed st') p =
                       Some (Single_info (if k = odd_key then even_key else odd_key) r w'))) \<and>
               (\<not> has_other_sessions (placed st) (if k = odd_key then even_key else odd_key) [p] \<longrightarrow>
                  map_of (placed st') p = None)
          else map_of (placed st') p = Some (Dual_info odd_key even_key r w)))"
proof
  assume ok: "store_ok st"
  then have d: "distinct (map fst (placed st))" by (simp add: store_ok_def)
  have u: "dual_unique st" using store_ok_dual_unique[OF ok] .
  let ?n = "Suc (length (placed st))"
  have l: "ndual st < ?n" by (simp add: ndual_def le_imp_less_Suc)
  obtain tc tr where scan: "removal_scan (placed st) k [] (placed st) = (tc, tr)"
    by (cases "removal_scan (placed st) k [] (placed st)")
  from scan_convert_remove[OF rm_dual_ok d u l scan] obtain sc where
    sc: "convert_all (remove_course_from_dual_widget ?n E k) tc st = Some sc"
    and okf: "step_ok k st (remove_all tr sc)"
    and gone: "\<forall>p\<in>set tr. map_of (placed (remove_all tr sc)) p = None"
    and nd: "\<forall>(p, w)\<in>set tc. no_dual_with w (remove_all tr sc)" by blast
  let ?f = "remove_all tr sc"
  have res: "remove_course_from_schedule E k st = Some ?f"
    using scan sc by (simp add: remove_course_from_schedule_def)
  from okf have ev: "evolves k st ?f" by (simp add: step_ok_def)
  have "case map_of (placed st) p of
        None \<Rightarrow> map_of (placed ?f) p = None
      | Some (Single_info c r w) \<Rightarrow>
          map_of (placed ?f) p = (if c = k then None else Some (Single_info c r w))
      | Some (Dual_info odd_key even_key r w) \<Rightarrow>
          if k = odd_key \<or> k = even_key
          then (map_of (placed ?f) p = None \<or>
                (\<exists>w'. map_of (placed ?f) p =
                       Some (Single_info (if k = odd_key then even_key else odd_key) r w'))) \<and>
               (\<not> has_other_sessions (placed st) (if k = odd_key then even_key else odd_key) [p] \<longrightarrow>
                  map_of (placed ?f) p = None)
          else map_of (placed ?f) p = Some (Dual_info odd_key even_key r w)" for p
  proof -
    from ev have h: "case map_of (placed st) p of
            None \<Rightarrow> map_of (placed ?f) p = None
          | Some i \<Rightarrow>
              map_of (placed ?f) p = Some i \<or>
              (occupies k i \<and>
               (map_of (placed ?f) p = None \<or>
                (is_dual i \<and>
                 (\<exists>w. map_of (placed ?f) p =
                        Some (Single_info (get_other_course_key (info_widget i) k) (info_rows i) w)))))"
      unfolding evolves_def by blast
    show ?thesis
    proof (cases "map_of (placed st) p")
      case None
      with h show ?thesis by simp
    next
      case (Some i)
      then have mem: "(p, i) \<in> set (placed st)" by (rule map_of_SomeD)
      show ?thesis
      proof (cases i)
        case (Single_info c r w)
        show ?thesis
        proof (cases "c = k")
          case True
          then have "occupies k i" using Single_info by (simp add: occupies_def)
          from removal_scan_covers[OF mem this, of "[]" "placed st"] scan Single_info
          have "p \<in> set tr" by (simp add: is_dual_def)
          with gone Some Single_info True show ?thesis by simp
        next
          case False
          with h Some Single_info show ?thesis by (simp add: occupies_def)
        qed
      next
        case (Dual_info odd_key even_key r w)
        then have di: "is_dual i" by (simp add: is_dual_def)
        have oth: "get_other_course_key (info_widget i) k =
                     (if k = odd_key then even_key else odd_key)"
          using Dual_info by (simp add: get_other_course_key_def info_widget_def)
        have rows: "info_rows i = r" using Dual_info by (simp add: info_rows_def)
        show ?thesis
        proof (cases "k = odd_key \<or> k = even_key")
          case False
          with h Some Dual_info show ?thesis by (simp add: occupies_def)
        next
          case True
          then have occ: "occupies k i" using Dual_info by (auto simp: occupies_def)
          note cov = removal_scan_covers[OF mem occ, of "[]" "placed st"]
          have a: "map_of (placed ?f) p = None \<or>
                (\<exists>w'. map_of (placed ?f) p =
                       Some (Single_info (if k = odd_key then even_key else odd_key) r w'))"
          proof (cases "has_other_sessions (placed st) (get_other_course_key (info_widget i) k) [p]")
            case True
            with cov di scan have "(p, info_widget i) \<in> set tc" by simp
            with nd have "no_dual_with (info_widget i) ?f" by auto
            with di have "map_of (placed ?f) p \<noteq> Some i" unfolding no_dual_with_def by blast
            with h Some oth rows show ?thesis by auto
          next
            case False
            with cov scan have "p \<in> set tr" by simp
            with gone show ?thesis by simp
          qed
          have b: "\<not> has_other_sessions (placed st) (if k = odd_key then even_key else odd_key) [p] \<longrightarrow>
                  map_of (placed ?f) p = None"
          proof
            assume "\<not> has_other_sessions (placed st) (if k = odd_key then even_key else odd_key) [p]"
            with cov scan oth have "p \<in> set tr" by simp
            with gone show "map_of (placed ?f) p = None" by simp
          qed
          from a b True Some Dual_info show ?thesis by simp
        qed
      qed
    qed
  qed
  with res show "\<exists>st'. remove_course_from_schedule E k st = Some st' \<and>
     (\<forall>p. case map_of (placed st) p of
        None \<Rightarrow> map_of (placed st') p = None
      | Some (Single_info c r w) \<Rightarrow>
          map_of (placed st') p = (if c = k then None else Some (Single_info c r w))
      | Some (Dual_info odd_key even_key r w) \<Rightarrow>
          if k = odd_key \<or> k = even_key
          then (map_of (placed st') p = None \<or>
                (\<exists>w'. map_of (placed st') p =
                       Some (Single_info (if k = odd_key then even_key else odd_key) r w'))) \<and>
               (\<not> has_other_sessions (placed st) (if k = odd_key then even_key else odd_key) [p] \<longrightarrow>
                  map_of (placed st') p = None)
          else map_of (placed st') p = Some (Dual_info odd_key even_key r w))"
    by blast
qed

text \<open>
  When the other course does occupy another cell, it can lose a cell all the same: in
  \<open>twin_store\<close> both cells are dual cells of \<open>O2\<close> and \<open>V2\<close>. The removal of \<open>O2\<close> turns
  the first into a single cell of \<open>V2\<close>; the scan that follows this conversion
  (\<^verbatim>\<open>_remove_course_sessions_except_cell\<close>) leaves the converted cell out when it looks for
  other cells of \<open>V2\<close>, and deletes the second.
\<close>

lemma removal_twin_cells:
  "has_other_sessions (placed twin_store) ''V2'' [(2, 0)] \<and>
   has_other_sessions (placed twin_store) ''V2'' [(2, 1)] \<and>
   remove_course_from_schedule twin_env ''O2'' twin_store =
     Some \<lparr>placed = [((2, 0), Single_info ''V2'' 4 4)],
           table = [((2, 0), Course_widget 4 ''V2'')], next_widget = 5\<rparr>"
  by code_simp

text \<open>
  Claim C2: the removal of a course demotes every dual cell that holds it to a single cell
  of the other course, and never takes the other course's occupancy away. The code breaks
  this. \<open>dual_store\<close>, the store after placing \<open>O1\<close> and then \<open>V1\<close> on the empty store, has
  the one dual cell of \<open>O1\<close> and \<open>V1\<close>. \<^verbatim>\<open>remove_course_from_schedule\<close> for \<open>O1\<close> deletes
  the cell from \<^verbatim>\<open>self.placed\<close> and its widget from the table, so \<open>V1\<close> is gone from the
  schedule. \<^verbatim>\<open>remove_course_from_dual_widget\<close>, called for \<open>O1\<close> on the widget of that cell
  in the same store, does what the claim says: the cell becomes a single cell of \<open>V1\<close> with
  the same rows.
\<close>

theorem removal_evicts_other_course:
  "add_course_internal demo_env Yes empty_store ''O1'' True =
     Some (Placed, \<lparr>placed = [((2, 0), Single_info ''O1'' 4 0)],
                    table = [((2, 0), Course_widget 0 ''O1'')], next_widget = 1\<rparr>) \<and>
   add_course_internal demo_env Yes
     \<lparr>placed = [((2, 0), Single_info ''O1'' 4 0)],
      table = [((2, 0), Course_widget 0 ''O1'')], next_widget = 1\<rparr> ''V1'' True =
     Some (Placed, dual_store) \<and>
   map_of (placed dual_store) (2, 0) = Some (Dual_info ''O1'' ''V1'' 4 1) \<and>
   map_of (table dual_store) (2, 0) = Some (Dual_widget 1 ''O1'' ''V1'') \<and>
   remove_course_from_schedule demo_env ''O1'' dual_store =
     Some \<lparr>placed = [], table = [], next_widget = 2\<rparr> \<and>
   remove_course_from_dual_widget 1 demo_env ''O1'' (Dual_widget 1 ''O1'' ''V1'') dual_store =
     Some \<lparr>placed = [((2, 0), Single_info ''V1'' 4 2)],
           table = [((2, 0), Course_widget 2 ''V1'')], next_widget = 3\<rparr>"
  by code_simp
section \<open>Properties of the placement of a course\<close>

subsection \<open>The first loop and the scans\<close>

lemma placements_of_named:
  "course_name c \<noteq> None \<Longrightarrow> \<exists>pls. placements_of c sch = Inr pls"
  by (induction sch) (auto split: option.splits)

lemma placements_of_mem:
  "placements_of c sch = Inr pls \<Longrightarrow>
     (srow, col, rs, sess) \<in> set pls \<longleftrightarrow> sess \<in> set sch \<and> slot_of sess = Some (srow, col, rs)"
proof (induction sch arbitrary: pls)
  case Nil
  then show ?case by simp
next
  case (Cons s sch)
  then show ?case
    by (auto simp: slot_of_def split: option.splits if_splits sum.splits)
qed

lemma scan_table_cell_mono:
  "set (fst acc) \<subseteq> set (fst (scan_table_cell E st k pl acc))"
  by (cases pl; cases acc)
     (auto simp: scan_table_cell_def Let_def split: option.splits widget.splits if_splits)

lemma scan_table_mono:
  "set (fst acc) \<subseteq> set (fst (scan_table E st k pls acc))"
proof (induction pls arbitrary: acc)
  case Nil
  show ?case by simp
next
  case (Cons pl pls)
  have "set (fst acc) \<subseteq> set (fst (scan_table_cell E st k pl acc))"
    by (rule scan_table_cell_mono)
  also have "\<dots> \<subseteq> set (fst (scan_table E st k pls (scan_table_cell E st k pl acc)))"
    by (rule Cons.IH)
  finally show ?case by simp
qed

lemma scan_placed_entry_mono:
  "set (fst acc) \<subseteq> set (fst (scan_placed_entry E k pl entry acc))"
  by (cases pl; cases acc; cases entry)
     (auto simp: scan_placed_entry_def Let_def split: option.splits session_match.splits if_splits)

lemma scan_placed_entries_mono:
  "set (fst acc) \<subseteq> set (fst (scan_placed_entries E k pl items acc))"
proof (induction items arbitrary: acc)
  case Nil
  show ?case by simp
next
  case (Cons entry items)
  have "set (fst acc) \<subseteq> set (fst (scan_placed_entry E k pl entry acc))"
    by (rule scan_placed_entry_mono)
  also have "\<dots> \<subseteq> set (fst (scan_placed_entries E k pl items (scan_placed_entry E k pl entry acc)))"
    by (rule Cons.IH)
  finally show ?case by simp
qed

lemma scan_placed_mono:
  "set (fst acc) \<subseteq> set (fst (scan_placed E st k pls acc))"
proof (induction pls arbitrary: acc)
  case Nil
  show ?case by simp
next
  case (Cons pl pls)
  obtain srow col rs sess where pl: "pl = (srow, col, rs, sess)" by (cases pl) auto
  show ?case
  proof (cases "map_of (snd acc) (srow, col) \<noteq> None")
    case True
    with pl Cons.IH[of acc] show ?thesis by simp
  next
    case False
    have "set (fst acc) \<subseteq> set (fst (scan_placed_entries E k pl (placed st) acc))"
      by (rule scan_placed_entries_mono)
    also have "\<dots> \<subseteq> set (fst (scan_placed E st k pls (scan_placed_entries E k pl (placed st) acc)))"
      by (rule Cons.IH)
    finally show ?thesis using pl False by simp
  qed
qed




lemma scan_table_cell_records:
  assumes "map_of (table st) (srow, col) = Some (Course_widget n ek)" and "ek \<noteq> k"
    and "map_of (COURSES E) ek = Some ec" and "strip (get_name ec) \<noteq> []"
    and "case find_exact_session (course_sessions ec) (sess_day sess) srow rs of
           None \<Rightarrow> True
         | Some existing_sess \<Rightarrow> \<not> is_compatible (get_parity sess) (get_parity existing_sess)"
  shows "((srow, col), (srow, col), ek, strip (get_name ec)) \<in>
           set (fst (scan_table_cell E st k (srow, col, rs, sess) acc))"
proof (cases acc)
  case (Pair cf cs)
  have wn: "widget_conflict_name E ek ec = strip (get_name ec)"
    using assms(4) by (simp add: widget_conflict_name_def Let_def)
  show ?thesis
    using Pair assms wn
    by (auto simp: scan_table_cell_def Let_def split: option.splits)
qed

lemma find_conflicts_records:
  assumes "(srow, col, rs, sess) \<in> set pls"
    and "map_of (table st) (srow, col) = Some (Course_widget n ek)" and "ek \<noteq> k"
    and "map_of (COURSES E) ek = Some ec" and "strip (get_name ec) \<noteq> []"
    and "case find_exact_session (course_sessions ec) (sess_day sess) srow rs of
           None \<Rightarrow> True
         | Some existing_sess \<Rightarrow> \<not> is_compatible (get_parity sess) (get_parity existing_sess)"
  shows "((srow, col), (srow, col), ek, strip (get_name ec)) \<in>
           set (fst (find_conflicts E st k pls))"
proof -
  have "((srow, col), (srow, col), ek, strip (get_name ec)) \<in>
           set (fst (scan_table E st k pls acc))" for acc
    using assms(1)
  proof (induction pls arbitrary: acc)
    case Nil
    then show ?case by simp
  next
    case (Cons pl pls)
    show ?case
    proof (cases "pl = (srow, col, rs, sess)")
      case True
      have "((srow, col), (srow, col), ek, strip (get_name ec)) \<in>
              set (fst (scan_table_cell E st k (srow, col, rs, sess) acc))"
        by (rule scan_table_cell_records[OF assms(2-6)])
      with scan_table_mono[of "scan_table_cell E st k (srow, col, rs, sess) acc" E st k pls] True
      show ?thesis by auto
    next
      case False
      with Cons.prems have "(srow, col, rs, sess) \<in> set pls" by simp
      from Cons.IH[OF this] show ?thesis by simp
    qed
  qed
  with scan_placed_mono[of "scan_table E st k pls ([], [])" E st k pls]
  show ?thesis unfolding find_conflicts_def by auto
qed
















subsection \<open>Rejection by priority\<close>

lemma priority_loop_keeps:
  "x \<in> fst ` set higher \<Longrightarrow>
     x \<in> fst ` set (fst (snd (priority_loop E cur conflicts (keys, higher, details))))"
proof (induction conflicts arbitrary: keys higher details)
  case Nil
  then show ?case by simp
next
  case (Cons conf conflicts)
  obtain nc oc key name0 where conf: "conf = (nc, oc, key, name0)" by (cases conf) auto
  from Cons.prems have a: "x \<in> fst ` set (higher @ [y])" for y by auto
  show ?case
    using conf Cons.IH[OF Cons.prems] Cons.IH[OF a]
    by (simp add: Let_def)
qed

lemma priority_loop_details:
  "higher \<noteq> [] \<longrightarrow> details \<noteq> [] \<Longrightarrow>
     fst (snd (priority_loop E cur conflicts (keys, higher, details))) \<noteq> [] \<longrightarrow>
     snd (snd (priority_loop E cur conflicts (keys, higher, details))) \<noteq> []"
proof (induction conflicts arbitrary: keys higher details)
  case Nil
  then show ?case by simp
next
  case (Cons conf conflicts)
  obtain nc oc key name0 where conf: "conf = (nc, oc, key, name0)" by (cases conf) auto
  have b: "hs \<noteq> [] \<longrightarrow> (if n \<in> set details then details else details @ [n]) \<noteq> []" for hs :: "(string \<times> string \<times> int) list" and n
    by auto
  show ?case
    using conf Cons.IH[OF Cons.prems] Cons.IH[OF b]
    by (simp add: Let_def)
qed

lemma priority_loop_sound:
  "\<forall>(bk, bn, bp)\<in>set higher. bk \<in> (\<lambda>c. fst (snd (snd c))) ` A \<and>
        bp = get_course_priority (auto_select_list E) bk \<and> bp < cur \<Longrightarrow>
   set conflicts \<subseteq> A \<Longrightarrow>
   \<forall>(bk, bn, bp)\<in>set (fst (snd (priority_loop E cur conflicts (keys, higher, details)))).
        bk \<in> (\<lambda>c. fst (snd (snd c))) ` A \<and>
        bp = get_course_priority (auto_select_list E) bk \<and> bp < cur"
proof (induction conflicts arbitrary: keys higher details)
  case Nil
  then show ?case by simp
next
  case (Cons conf conflicts)
  obtain nc oc key name0 where conf: "conf = (nc, oc, key, name0)" by (cases conf) auto
  from Cons.prems(2) have sub: "set conflicts \<subseteq> A" and mem: "conf \<in> A" by simp_all
  from mem conf have keyA: "key \<in> (\<lambda>c. fst (snd (snd c))) ` A" by force
  let ?name = "resolve_conflict_name E key name0"
  let ?prio = "get_course_priority (auto_select_list E) key"
  have ext: "\<forall>(bk, bn, bp)\<in>set (if ?prio < cur then higher @ [(key, ?name, ?prio)] else higher).
        bk \<in> (\<lambda>c. fst (snd (snd c))) ` A \<and>
        bp = get_course_priority (auto_select_list E) bk \<and> bp < cur"
    using Cons.prems(1) keyA by auto
  show ?case
    using conf Cons.IH[OF Cons.prems(1) sub] Cons.IH[OF ext sub]
    by (simp add: Let_def)
qed

lemma priority_loop_higher:
  assumes "(new_cell, old_cell, ck, cname) \<in> set conflicts"
    and "resolve_conflict_name E ck cname \<noteq> []"
    and "resolve_conflict_name E ck cname \<noteq> unknown_text E"
    and "get_course_priority (auto_select_list E) ck < cur"
    and "\<forall>key\<in>set keys. get_course_priority (auto_select_list E) key < cur \<longrightarrow>
           key \<in> fst ` set higher"
  shows "ck \<in> fst ` set (fst (snd (priority_loop E cur conflicts (keys, higher, details))))"
  using assms
proof (induction conflicts arbitrary: keys higher details)
  case Nil
  then show ?case by simp
next
  case (Cons conf conflicts)
  obtain nc oc key name0 where conf: "conf = (nc, oc, key, name0)" by (cases conf) auto
  let ?name = "resolve_conflict_name E key name0"
  let ?prio = "get_course_priority (auto_select_list E) key"
  let ?keys' = "keys @ [key]"
  let ?higher' = "(if ?prio < cur then higher @ [(key, ?name, ?prio)] else higher)"
  let ?details' = "(if ?name \<in> set details then details else details @ [?name])"
  have inv': "\<forall>key\<in>set ?keys'. get_course_priority (auto_select_list E) key < cur \<longrightarrow>
           key \<in> fst ` set ?higher'"
    using Cons.prems(5) by (auto simp: image_iff)
  show ?case
  proof (cases "key \<in> set keys")
    case True
    then have step: "priority_loop E cur (conf # conflicts) (keys, higher, details) =
        priority_loop E cur conflicts (keys, higher, details)"
      using conf by simp
    show ?thesis
    proof (cases "conf = (new_cell, old_cell, ck, cname)")
      case True
      with conf have "key = ck" by simp
      with \<open>key \<in> set keys\<close> Cons.prems(4,5) have "ck \<in> fst ` set higher" by blast
      then have "ck \<in> fst ` set (fst (snd (priority_loop E cur conflicts (keys, higher, details))))"
        using priority_loop_keeps by blast
      with step show ?thesis by simp
    next
      case False
      with Cons.prems(1) have "(new_cell, old_cell, ck, cname) \<in> set conflicts" by simp
      from Cons.IH[OF this Cons.prems(2,3,4,5)] step show ?thesis by simp
    qed
  next
    case notin: False
    show ?thesis
    proof (cases "?name = [] \<or> ?name = unknown_text E")
      case True
      then have step: "priority_loop E cur (conf # conflicts) (keys, higher, details) =
          priority_loop E cur conflicts (keys, higher, details)"
        using conf notin by (simp add: Let_def)
      from True Cons.prems(2,3) conf have "conf \<noteq> (new_cell, old_cell, ck, cname)" by auto
      with Cons.prems(1) have "(new_cell, old_cell, ck, cname) \<in> set conflicts" by simp
      from Cons.IH[OF this Cons.prems(2,3,4,5)] step show ?thesis by simp
    next
      case False
      then have step: "priority_loop E cur (conf # conflicts) (keys, higher, details) =
          priority_loop E cur conflicts (?keys', ?higher', ?details')"
        using conf notin by (simp add: Let_def)
      show ?thesis
      proof (cases "conf = (new_cell, old_cell, ck, cname)")
        case True
        with conf have "key = ck" by simp
        with Cons.prems(4) have "ck \<in> fst ` set ?higher'" by (simp add: image_iff)
        then have "ck \<in> fst ` set (fst (snd (priority_loop E cur conflicts
                      (?keys', ?higher', ?details'))))"
          using priority_loop_keeps by blast
        with step show ?thesis by simp
      next
        case False
        with Cons.prems(1) have "(new_cell, old_cell, ck, cname) \<in> set conflicts" by simp
        from Cons.IH[OF this Cons.prems(2,3,4) inv'] step show ?thesis by simp
      qed
    qed
  qed
qed

text \<open>
  What the priority check does: a conflict that the scans record under a key whose name the
  loop resolves, and whose rank is below the rank of the candidate, rejects the placement,
  whatever the user would answer; the list of the rejection holds that key; the stores are
  left as they were. The second lemma states it for the course in a single cell at the cell
  of a session of the candidate.
\<close>

lemma recorded_conflict_rejects:
  assumes c: "map_of (COURSES E) course_key = Some c" and nm: "course_name c \<noteq> None"
    and sch: "course_schedule c = Some sch" and pls: "placements_of c sch = Inr pls"
    and mem: "(new_cell, old_cell, ck, cname) \<in> set (fst (find_conflicts E st course_key pls))"
    and n1: "resolve_conflict_name E ck cname \<noteq> []"
    and n2: "resolve_conflict_name E ck cname \<noteq> unknown_text E"
    and pr: "get_course_priority (auto_select_list E) ck <
             get_course_priority (auto_select_list E) course_key"
  shows "\<exists>blocking.
      add_course_internal E answer st course_key True =
        Some (Rejected_higher_priority blocking, st) \<and>
      ck \<in> fst ` set blocking \<and>
      (\<forall>(bk, bn, bp)\<in>set blocking.
         bk \<in> (\<lambda>conf. fst (snd (snd conf))) ` set (fst (find_conflicts E st course_key pls)) \<and>
         bp = get_course_priority (auto_select_list E) bk \<and>
         bp < get_course_priority (auto_select_list E) course_key)"
proof -
  let ?conflicts = "fst (find_conflicts E st course_key pls)"
  let ?cur = "get_course_priority (auto_select_list E) course_key"
  let ?res = "priority_loop E ?cur ?conflicts ([], [], [])"
  have inv0: "\<forall>key\<in>set []. get_course_priority (auto_select_list E) key < ?cur \<longrightarrow>
           key \<in> fst ` set ([] :: (string \<times> string \<times> int) list)" by simp
  have hk: "ck \<in> fst ` set (fst (snd ?res))"
    using priority_loop_higher[OF mem n1 n2 pr inv0] .
  then have hne: "fst (snd ?res) \<noteq> []" by auto
  have "fst (snd ?res) \<noteq> [] \<longrightarrow> snd (snd ?res) \<noteq> []"
    by (rule priority_loop_details) simp
  with hne have dne: "snd (snd ?res) \<noteq> []" by simp
  from mem have cne: "?conflicts \<noteq> []" by auto
  have sound: "\<forall>(bk, bn, bp)\<in>set (fst (snd ?res)).
         bk \<in> (\<lambda>conf. fst (snd (snd conf))) ` set ?conflicts \<and>
         bp = get_course_priority (auto_select_list E) bk \<and> bp < ?cur"
    by (rule priority_loop_sound) simp_all
  have "add_course_internal E answer st course_key True =
        Some (Rejected_higher_priority (fst (snd ?res)), st)"
    using c nm sch pls cne hne dne by (simp add: add_course_internal_def Let_def)
  with hk sound show ?thesis by blast
qed

lemma single_cell_blocker_rejects:
  assumes c: "map_of (COURSES E) course_key = Some c" and nm: "course_name c \<noteq> None"
    and sch: "course_schedule c = Some sch"
    and sess: "sess \<in> set sch" and slot: "slot_of sess = Some (srow, col, rs)"
    and cell: "map_of (table st) (srow, col) = Some (Course_widget n ek)" and ne: "ek \<noteq> course_key"
    and ec: "map_of (COURSES E) ek = Some ec"
    and n1: "strip (get_name ec) \<noteq> []" and n2: "strip (get_name ec) \<noteq> unknown_text E"
    and nmerge: "case find_exact_session (course_sessions ec) (sess_day sess) srow rs of
           None \<Rightarrow> True
         | Some existing_sess \<Rightarrow> \<not> is_compatible (get_parity sess) (get_parity existing_sess)"
    and pr: "get_course_priority (auto_select_list E) ek <
             get_course_priority (auto_select_list E) course_key"
  shows "\<exists>blocking.
      add_course_internal E answer st course_key True =
        Some (Rejected_higher_priority blocking, st) \<and>
      ek \<in> fst ` set blocking"
proof -
  from nm placements_of_named obtain pls where pls: "placements_of c sch = Inr pls" by blast
  from sess slot have "(srow, col, rs, sess) \<in> set pls"
    using placements_of_mem[OF pls] by simp
  from find_conflicts_records[OF this cell ne ec n1 nmerge]
  have mem: "((srow, col), (srow, col), ek, strip (get_name ec)) \<in>
           set (fst (find_conflicts E st course_key pls))" .
  have r1: "resolve_conflict_name E ek (strip (get_name ec)) \<noteq> []"
    and r2: "resolve_conflict_name E ek (strip (get_name ec)) \<noteq> unknown_text E"
    using n1 n2 by (simp_all add: resolve_conflict_name_def)
  from recorded_conflict_rejects[OF c nm sch pls mem r1 r2 pr, of answer]
  show ?thesis by blast
qed

lemma demo_priorities:
  "get_course_priority (auto_select_list demo_env) ''V1'' = 1 \<and>
   get_course_priority (auto_select_list demo_env) ''N1'' = 2 \<and>
   get_course_priority (auto_select_list demo_env) ''Q1'' = 1 \<and>
   get_course_priority (auto_select_list demo_env) ''O1'' = 999"
  by code_simp

lemma v_store_rejected:
  "add_course_internal demo_env Yes v_store ''N1'' True =
     Some (Rejected_higher_priority [(''V1'', ''Vectors'', 1)], v_store)"
  by code_simp

text \<open>
  The check is made only when the caller asks for the dialog, and it passes over a conflict
  whose course has no name: then \<open>N1\<close> (rank 2) is not placed over \<open>V1\<close> (rank 1) but
  nothing names the blocking course, respectively \<open>N1\<close> is written over \<open>Q1\<close> (rank 1).
\<close>

lemma v_store_skipped:
  "add_course_internal demo_env Yes v_store ''N1'' False = Some (Skipped_conflicts, v_store)"
  by code_simp

lemma q_store_overwritten:
  "add_course_internal demo_env Yes q_store ''N1'' True =
     Some (Placed, \<lparr>placed = [((2, 0), Single_info ''N1'' 4 1)],
                    table = [((2, 0), Course_widget 1 ''N1'')], next_widget = 2\<rparr>)"
  by code_simp

text \<open>
  Claim C3: a placement that conflicts with a course of strictly lower rank number is
  rejected and nothing is mutated. The code breaks this for the even course of a dual cell.
  \<open>dual_store\<close> is the store after placing \<open>O1\<close> and then \<open>V1\<close> on the empty store; \<open>V1\<close>
  holds the cell \<open>(2, 0)\<close>, its session conflicts with the session of \<open>N1\<close>, and its rank 1
  is below the rank 2 of \<open>N1\<close>. The scans record the cell under the marker
  \<^verbatim>\<open>'dual_widget'\<close> and under the key of the odd course \<open>O1\<close> only, so the rank of \<open>V1\<close>
  is never read: the placement of \<open>N1\<close> is not rejected, and once the user confirms the
  removal of the courses that were recorded, \<open>N1\<close> takes the cell and \<open>V1\<close> is gone from
  the schedule.
\<close>

theorem dual_cell_even_course_evicted:
  "add_course_internal demo_env Yes empty_store ''O1'' True =
     Some (Placed, \<lparr>placed = [((2, 0), Single_info ''O1'' 4 0)],
                    table = [((2, 0), Course_widget 0 ''O1'')], next_widget = 1\<rparr>) \<and>
   add_course_internal demo_env Yes
     \<lparr>placed = [((2, 0), Single_info ''O1'' 4 0)],
      table = [((2, 0), Course_widget 0 ''O1'')], next_widget = 1\<rparr> ''V1'' True =
     Some (Placed, dual_store) \<and>
   holds_course ''V1'' dual_store (2, 0) \<and>
   get_schedule (COURSES demo_env) ''N1'' =
     Inr [mk_session saturday ''08:00'' ''10:00'' []] \<and>
   get_schedule (COURSES demo_env) ''V1'' =
     Inr [mk_session saturday ''08:00'' ''10:00'' parity_even] \<and>
   schedules_conflict [mk_session saturday ''08:00'' ''10:00'' []]
     [mk_session saturday ''08:00'' ''10:00'' parity_even] = Inr True \<and>
   get_course_priority (auto_select_list demo_env) ''V1'' = 1 \<and>
   get_course_priority (auto_select_list demo_env) ''N1'' = 2 \<and>
   find_conflicts demo_env dual_store ''N1''
       [(2, 0, 4, mk_session saturday ''08:00'' ''10:00'' [])] =
     ([((2, 0), (2, 0), ''dual_widget'', ''Optics / Vectors''),
       ((2, 0), (2, 0), ''O1'', ''Optics'')], []) \<and>
   add_course_internal demo_env Yes dual_store ''N1'' True =
     Some (Placed, \<lparr>placed = [((2, 0), Single_info ''N1'' 4 2)],
                    table = [((2, 0), Course_widget 2 ''N1'')], next_widget = 3\<rparr>) \<and>
   \<not> holds_course ''V1''
       \<lparr>placed = [((2, 0), Single_info ''N1'' 4 2)],
        table = [((2, 0), Course_widget 2 ''N1'')], next_widget = 3\<rparr> (2, 0)"
  by code_simp

subsection \<open>What a placement commits\<close>























text \<open>
  The writing loop can stop with KeyError in two cases that the statement below leaves
  aside. A session of \<open>W1\<close> overlaps the dual cell of \<open>dual_store\<close> from another row: the
  second scan takes the dual entry for a merge candidate, and
  \<^verbatim>\<open>COURSES[existing_info.get('course')]\<close> raises after the cell of the first session has
  been written. \<open>X1\<close> has no key \<^verbatim>\<open>name\<close>: \<^verbatim>\<open>course['name']\<close> raises at its first cell.
\<close>

lemma dual_overlap_partial_write:
  "meets_dual ''W1'' dual_store (mk_session saturday ''09:00'' ''10:00'' parity_even) \<and>
   add_course_internal demo_env Yes dual_store ''W1'' True =
     Some (Raised KeyError,
       \<lparr>placed = [((2, 0), Dual_info ''O1'' ''V1'' 4 1), ((2, 6), Single_info ''W1'' 4 2)],
        table = [((2, 0), Dual_widget 1 ''O1'' ''V1''), ((2, 6), Course_widget 2 ''W1'')],
        next_widget = 3\<rparr>)"
  by code_simp

lemma nameless_course_raises:
  "map_of (COURSES demo_env) ''X1'' =
     Some \<lparr>course_code = Some ''X_1'', course_name = None,
           course_schedule = Some [mk_session sunday ''08:00'' ''10:00'' []]\<rparr> \<and>
   add_course_internal demo_env Yes empty_store ''X1'' True = Some (Raised KeyError, empty_store)"
  by code_simp


end
